theory Spec2Isabelle
  imports Main
begin

section \<open>Text, characters and the string helpers of the three scripts\<close>

text \<open>
  The scripts read Liberty text and work on it line by line. A line is a \<open>string\<close>; a
  character stands for a code point below 256. The character classes are the ones
  Python's \<open>str\<close> methods and \<open>re\<close> module use for such code points: \<open>\s\<close> and
  \<open>str.strip\<close> share one whitespace set, \<open>\d\<close> is the ten ASCII digits, and \<open>\w\<close>
  is \<open>str.isalnum\<close> or an underscore.
\<close>

definition is_space :: "char \<Rightarrow> bool" where
  "is_space c = (let n = (of_char c :: int) in
     (9 \<le> n \<and> n \<le> 13) \<or> (28 \<le> n \<and> n \<le> 32) \<or> n = 133 \<or> n = 160)"

definition is_digit :: "char \<Rightarrow> bool" where
  "is_digit c = (let n = (of_char c :: int) in 48 \<le> n \<and> n \<le> 57)"

definition is_word :: "char \<Rightarrow> bool" where
  "is_word c = (let n = (of_char c :: int) in
     (48 \<le> n \<and> n \<le> 57) \<or> (65 \<le> n \<and> n \<le> 90) \<or> n = 95 \<or> (97 \<le> n \<and> n \<le> 122) \<or>
     n = 170 \<or> n = 178 \<or> n = 179 \<or> n = 181 \<or> n = 185 \<or> n = 186 \<or>
     (188 \<le> n \<and> n \<le> 190) \<or> (192 \<le> n \<and> n \<le> 214) \<or> (216 \<le> n \<and> n \<le> 246) \<or>
     248 \<le> n)"

text \<open>\<open>str.lstrip()\<close>, \<open>str.strip()\<close>, \<open>str.startswith\<close>, \<open>needle in s\<close>, \<open>s.count(c)\<close>.\<close>

definition lstrip :: "string \<Rightarrow> string" where
  "lstrip s = dropWhile is_space s"

definition strip :: "string \<Rightarrow> string" where
  "strip s = rev (dropWhile is_space (rev (dropWhile is_space s)))"

fun startswith :: "string \<Rightarrow> string \<Rightarrow> bool" where
  "startswith s [] = True"
| "startswith [] (p # ps) = False"
| "startswith (c # cs) (p # ps) = (c = p \<and> startswith cs ps)"

fun contains :: "string \<Rightarrow> string \<Rightarrow> bool" where
  "contains [] needle = (needle = [])"
| "contains (c # cs) needle = (startswith (c # cs) needle \<or> contains cs needle)"

definition count_char :: "char \<Rightarrow> string \<Rightarrow> int" where
  "count_char c s = int (length (filter (\<lambda>x. x = c) s))"

section \<open>Regular expressions as Python's backtracking matcher runs them\<close>

text \<open>
  The patterns of the scripts use character classes, greedy repetition of a class,
  greedy options, concatenation, the anchor \<open>^\<close> and one-character negative
  look-behind and look-ahead. A position in the subject is the pair of the text before
  it (reversed) and the text after it. \<open>rx_ends r b a\<close> lists the positions at which a
  match of \<open>r\<close> started at \<open>(b, a)\<close> can end, in the order in which the backtracking
  matcher tries them: the first one is the match.
\<close>

datatype rx =
    Cls "char \<Rightarrow> bool"
  | Many "char \<Rightarrow> bool"
  | Opt rx
  | Cat rx rx
  | NotBehind "char \<Rightarrow> bool"
  | NotAhead "char \<Rightarrow> bool"
  | Bol
  | BolMultiline

fun many_ends :: "(char \<Rightarrow> bool) \<Rightarrow> string \<Rightarrow> string \<Rightarrow> (string \<times> string) list" where
  "many_ends p b [] = [(b, [])]"
| "many_ends p b (c # cs) = (if p c then many_ends p (c # b) cs @ [(b, c # cs)] else [(b, c # cs)])"

fun rx_ends :: "rx \<Rightarrow> string \<Rightarrow> string \<Rightarrow> (string \<times> string) list" where
  "rx_ends (Cls p) b a = (case a of [] \<Rightarrow> [] | c # cs \<Rightarrow> if p c then [(c # b, cs)] else [])"
| "rx_ends (Many p) b a = many_ends p b a"
| "rx_ends (Opt r) b a = rx_ends r b a @ [(b, a)]"
| "rx_ends (Cat r s) b a = concat (map (\<lambda>(b', a'). rx_ends s b' a') (rx_ends r b a))"
| "rx_ends (NotBehind p) b a = (case b of [] \<Rightarrow> [(b, a)] | c # _ \<Rightarrow> if p c then [] else [(b, a)])"
| "rx_ends (NotAhead p) b a = (case a of [] \<Rightarrow> [(b, a)] | c # _ \<Rightarrow> if p c then [] else [(b, a)])"
| "rx_ends Bol b a = (if b = [] then [(b, a)] else [])"
| "rx_ends BolMultiline b a = (case b of [] \<Rightarrow> [(b, a)] | c # _ \<Rightarrow> if c = CHR 0x0A then [(b, a)] else [])"

definition rx_first :: "rx \<Rightarrow> string \<Rightarrow> string \<Rightarrow> (string \<times> string) option" where
  "rx_first r b a = (case rx_ends r b a of [] \<Rightarrow> None | e # _ \<Rightarrow> Some e)"

text \<open>A literal is the concatenation of its characters; \<open>p+\<close> is \<open>p\<close> then \<open>p*\<close>.\<close>

fun Lit :: "string \<Rightarrow> rx \<Rightarrow> rx" where
  "Lit [] k = k"
| "Lit (c # cs) k = Cat (Cls (\<lambda>x. x = c)) (Lit cs k)"

definition Eps :: rx where
  "Eps = Many (\<lambda>c. False)"

definition Many1 :: "(char \<Rightarrow> bool) \<Rightarrow> rx \<Rightarrow> rx" where
  "Many1 p k = Cat (Cls p) (Cat (Many p) k)"

text \<open>\<open>re.search\<close>: the leftmost position at which the pattern matches.\<close>

fun rx_search :: "rx \<Rightarrow> string \<Rightarrow> string \<Rightarrow> bool" where
  "rx_search r b [] = (rx_ends r b [] \<noteq> [])"
| "rx_search r b (c # cs) = (rx_ends r b (c # cs) \<noteq> [] \<or> rx_search r (c # b) cs)"

text \<open>
  \<open>pattern.sub\<close> walks the subject from left to right. At each position it takes the
  match if there is one, emits it as a token and goes on behind it; otherwise it copies
  one character. The pieces are joined afterwards. None of the patterns substituted
  here can match the empty string, so a match always consumes text.
\<close>

function sub_pieces :: "rx \<Rightarrow> string \<Rightarrow> string \<Rightarrow> (char + string) list" where
  "sub_pieces r b [] = []"
| "sub_pieces r b (c # cs) =
     (case rx_first r b (c # cs) of
        None \<Rightarrow> Inl c # sub_pieces r (c # b) cs
      | Some (b', a') \<Rightarrow>
          if length a' < length (c # cs)
          then Inr (take (length (c # cs) - length a') (c # cs)) # sub_pieces r b' a'
          else Inl c # sub_pieces r (c # b) cs)"
  by pat_completeness auto
termination
  by (relation "measure (\<lambda>(r, b, a). length a)") auto

section \<open>Python floats: \<open>float(token)\<close>, division by \<open>1000.0\<close> and \<open>format(x, '.8g')\<close>\<close>

text \<open>
  A float is an IEEE 754 binary64 value: a sign with a magnitude \<open>m * 2 ^ e\<close>, or an
  infinity. \<open>float(s)\<close> and the division round the exact value to the nearest double,
  ties to even; a magnitude of \<open>2 ^ 1024\<close> or more becomes an infinity and the least
  binary exponent is \<open>-1074\<close>. No NaN arises: a token is a decimal numeral.
\<close>

datatype double = Finite bool int int | Infinity bool

function bitlen :: "int \<Rightarrow> int" where
  "bitlen n = (if n \<le> 0 then 0 else 1 + bitlen (n div 2))"
  by pat_completeness auto
termination
  by (relation "measure nat") auto

function declen :: "int \<Rightarrow> int" where
  "declen n = (if n \<le> 0 then 0 else 1 + declen (n div 10))"
  by pat_completeness auto
termination
  by (relation "measure nat") auto

declare bitlen.simps [simp del] declen.simps [simp del]

definition round_half_even :: "int \<Rightarrow> int \<Rightarrow> int" where
  "round_half_even n d = (let q = n div d; r = n mod d in
     if 2 * r < d then q else if d < 2 * r then q + 1 else if even q then q else q + 1)"

text \<open>\<open>n / (d * base ^ k)\<close> rounded to an integer, for an integer \<open>k\<close> of either sign.\<close>

definition round_scaled :: "int \<Rightarrow> int \<Rightarrow> int \<Rightarrow> int \<Rightarrow> int" where
  "round_scaled base n d k =
     (if 0 \<le> k then round_half_even n (d * base ^ nat k) else round_half_even (n * base ^ nat (- k)) d)"

text \<open>\<open>d * base ^ k \<le> n\<close>, for an integer \<open>k\<close> of either sign.\<close>

definition scaled_le :: "int \<Rightarrow> int \<Rightarrow> int \<Rightarrow> int \<Rightarrow> bool" where
  "scaled_le base d k n = (if 0 \<le> k then d * base ^ nat k \<le> n else d \<le> n * base ^ nat (- k))"

text \<open>The floor of the logarithm of \<open>n / d\<close> to base 2 and to base 10, for positive \<open>n\<close>, \<open>d\<close>.\<close>

definition ilog2_ratio :: "int \<Rightarrow> int \<Rightarrow> int" where
  "ilog2_ratio n d = (let k = bitlen n - bitlen d in if scaled_le 2 d k n then k else k - 1)"

definition ilog10_ratio :: "int \<Rightarrow> int \<Rightarrow> int" where
  "ilog10_ratio n d = (let k = declen n - declen d in if scaled_le 10 d k n then k else k - 1)"

definition to_double :: "bool \<Rightarrow> int \<Rightarrow> int \<Rightarrow> double" where
  "to_double s n d =
     (if n = 0 then Finite s 0 0
      else let e = max (ilog2_ratio n d - 52) (- 1074);
               m = round_scaled 2 n d e
           in if 971 < e \<or> (e = 971 \<and> 2 ^ 53 \<le> m) then Infinity s else Finite s m e)"

text \<open>
  The token is \<open>-?\d+(\.\d*)?([eE]-?\d+)?\<close>; \<open>float\<close> accepts every such string, so the
  \<open>except (ValueError, TypeError)\<close> branch of \<open>replacer\<close> is never taken.
\<close>

definition digit_val :: "char \<Rightarrow> int" where
  "digit_val c = of_char c - 48"

definition int_of_digits :: "string \<Rightarrow> int" where
  "int_of_digits ds = foldl (\<lambda>acc c. 10 * acc + digit_val c) 0 ds"

definition float_of_token :: "string \<Rightarrow> double" where
  "float_of_token tok =
     (let neg = startswith tok ''-'';
          t1 = (if neg then tl tok else tok);
          ip = takeWhile is_digit t1;
          t2 = dropWhile is_digit t1;
          fp = (if startswith t2 ''.'' then takeWhile is_digit (tl t2) else []);
          t3 = (if startswith t2 ''.'' then dropWhile is_digit (tl t2) else t2);
          t4 = (if t3 = [] then [] else tl t3);
          eneg = startswith t4 ''-'';
          ev = int_of_digits (if eneg then tl t4 else t4);
          ex = (if eneg then - ev else ev) - int (length fp);
          m = int_of_digits (ip @ fp)
      in if 0 \<le> ex then to_double neg (m * 10 ^ nat ex) 1 else to_double neg m (10 ^ nat (- ex)))"

definition div_1000 :: "double \<Rightarrow> double" where
  "div_1000 x = (case x of
       Infinity s \<Rightarrow> Infinity s
     | Finite s m e \<Rightarrow> if 0 \<le> e then to_double s (m * 2 ^ nat e) 1000 else to_double s m (1000 * 2 ^ nat (- e)))"

text \<open>
  \<open>format(x, '.8g')\<close>: the value is rounded to eight significant decimal digits (ties
  to even) with decimal exponent \<open>X\<close>; for \<open>-4 \<le> X < 8\<close> the result is positional,
  otherwise scientific with an exponent of at least two digits; trailing zeros of the
  fraction, and then a trailing point, are dropped.
\<close>

function digits_of_int :: "int \<Rightarrow> string" where
  "digits_of_int n = (if n < 10 then [char_of (48 + n)] else digits_of_int (n div 10) @ [char_of (48 + n mod 10)])"
  by pat_completeness auto
termination
  by (relation "measure nat") auto

declare digits_of_int.simps [simp del]

definition strip_zeros :: "string \<Rightarrow> string" where
  "strip_zeros ds = rev (dropWhile (\<lambda>c. c = CHR ''0'') (rev ds))"

definition with_point :: "string \<Rightarrow> string \<Rightarrow> string" where
  "with_point ip fp = (if strip_zeros fp = [] then ip else ip @ ''.'' @ strip_zeros fp)"

definition format_exp :: "int \<Rightarrow> string" where
  "format_exp x = ''e'' @ (if x < 0 then ''-'' else ''+'') @
     (if \<bar>x\<bar> < 10 then ''0'' else []) @ digits_of_int \<bar>x\<bar>"

definition format_digits :: "int \<Rightarrow> int \<Rightarrow> string" where
  "format_digits ds x =
     (let s = digits_of_int ds in
      if x < - 4 \<or> 8 \<le> x then with_point (take 1 s) (drop 1 s) @ format_exp x
      else if x < 0 then with_point (''0'') (replicate (nat (- x - 1)) (CHR ''0'') @ s)
      else with_point (take (nat x + 1) s) (drop (nat x + 1) s))"

definition format_8g :: "double \<Rightarrow> string" where
  "format_8g v = (case v of
       Infinity s \<Rightarrow> (if s then ''-inf'' else ''inf'')
     | Finite s m e \<Rightarrow> (if s then ''-'' else []) @
         (if m = 0 then ''0''
          else let n = (if 0 \<le> e then m * 2 ^ nat e else m);
                   d = (if 0 \<le> e then 1 else 2 ^ nat (- e));
                   x = ilog10_ratio n d;
                   ds = round_scaled 10 n d (x - 7)
               in if ds = 10 ^ 8 then format_digits (10 ^ 7) (x + 1) else format_digits ds x))"

section \<open>fix\_asap7\_macros.py\<close>

text \<open>
  \<open>scale_numbers_in_line\<close>: the pattern
  \<^verbatim>\<open>(?<!\w)(-?\d+(?:\.\d*)?(?:[eE]-?\d+)?)(?!\w)\<close>, the replacement function and \<open>pattern.sub\<close>.
\<close>

definition number_rx :: rx where
  "number_rx =
     Cat (NotBehind is_word)
    (Cat (Opt (Cls (\<lambda>c. c = CHR ''-'')))
    (Many1 is_digit
    (Cat (Opt (Cat (Cls (\<lambda>c. c = CHR ''.'')) (Many is_digit)))
    (Cat (Opt (Cat (Cls (\<lambda>c. c = CHR ''e'' \<or> c = CHR ''E''))
              (Cat (Opt (Cls (\<lambda>c. c = CHR ''-''))) (Many1 is_digit Eps))))
         (NotAhead is_word)))))"

definition replacer :: "string \<Rightarrow> string" where
  "replacer tok = format_8g (div_1000 (float_of_token tok))"

definition join_pieces :: "(string \<Rightarrow> string) \<Rightarrow> (char + string) list \<Rightarrow> string" where
  "join_pieces f ps = concat (map (\<lambda>p. case p of Inl c \<Rightarrow> [c] | Inr tok \<Rightarrow> f tok) ps)"

definition scale_numbers_in_line :: "string \<Rightarrow> string" where
  "scale_numbers_in_line line = join_pieces replacer (sub_pieces number_rx [] line)"

text \<open>
  \<open>find_output_pin_line_ranges\<close>, the first pass. The loop variables are the fields of
  the state; \<open>block_start_info\<close> is the dictionary with its two keys, empty (\<open>None\<close>)
  outside a block. The loop reads the dictionary only while \<open>in_pin_block\<close> holds, and
  then it is filled, so neither the default of \<open>.get\<close> nor a \<open>KeyError\<close> is reached.
\<close>

record scan_state =
  ranges :: "(nat \<times> nat) list"
  brace_depth :: int
  in_pin_block :: bool
  is_output_pin :: bool
  block_start_info :: "(nat \<times> int) option"

definition scan_init :: scan_state where
  "scan_init = \<lparr>ranges = [], brace_depth = 0, in_pin_block = False, is_output_pin = False,
     block_start_info = None\<rparr>"

definition is_pin_header :: "string \<Rightarrow> bool" where
  "is_pin_header line = (startswith (strip line) ''pin ('' \<or> startswith (strip line) ''bus ('')"

definition brace_delta :: "string \<Rightarrow> int" where
  "brace_delta line = count_char (CHR ''{'') line - count_char (CHR ''}'') line"

definition names_output :: "string \<Rightarrow> bool" where
  "names_output line = (contains (strip line) ''direction'' \<and> contains (strip line) ''output'')"

definition start_depth :: "scan_state \<Rightarrow> int" where
  "start_depth s = (case block_start_info s of None \<Rightarrow> 0 | Some (l, d) \<Rightarrow> d)"

definition close_block :: "scan_state \<Rightarrow> nat \<Rightarrow> scan_state" where
  "close_block s line_num =
     s\<lparr>ranges := (case block_start_info s of
                     Some (l, d) \<Rightarrow> if is_output_pin s then ranges s @ [(l, line_num)] else ranges s
                   | None \<Rightarrow> ranges s),
       in_pin_block := False, is_output_pin := False, block_start_info := None\<rparr>"

definition scan_line :: "scan_state \<Rightarrow> nat \<Rightarrow> string \<Rightarrow> scan_state" where
  "scan_line s i line =
     (let line_num = i + 1;
          s1 = (if is_pin_header line \<and> \<not> in_pin_block s
                then s\<lparr>in_pin_block := True, is_output_pin := False,
                       block_start_info := Some (line_num, brace_depth s)\<rparr>
                else s);
          s2 = s1\<lparr>brace_depth := brace_depth s1 + brace_delta line\<rparr>;
          s3 = (if in_pin_block s2 \<and> names_output line then s2\<lparr>is_output_pin := True\<rparr> else s2)
      in if in_pin_block s3 \<and> brace_depth s3 \<le> start_depth s3 then close_block s3 line_num else s3)"

fun scan_lines :: "scan_state \<Rightarrow> nat \<Rightarrow> string list \<Rightarrow> scan_state" where
  "scan_lines s i [] = s"
| "scan_lines s i (line # rest) = scan_lines (scan_line s i line) (i + 1) rest"

definition find_output_pin_line_ranges :: "string list \<Rightarrow> (nat \<times> nat) list" where
  "find_output_pin_line_ranges lines = ranges (scan_lines scan_init 0 lines)"

text \<open>\<open>process_lib_file\<close>, the second pass over the same lines.\<close>

record rewrite_state =
  modified_lines :: "string list"
  is_in_output_range :: bool
  is_scaling_values :: bool
  current_range_index :: nat

definition rewrite_init :: rewrite_state where
  "rewrite_init = \<lparr>modified_lines = [], is_in_output_range = False, is_scaling_values = False,
     current_range_index = 0\<rparr>"

definition is_index_line :: "string \<Rightarrow> bool" where
  "is_index_line line = (startswith (lstrip line) ''index_1'' \<or> startswith (lstrip line) ''index_2'')"

definition opens_values :: "string \<Rightarrow> bool" where
  "opens_values line = contains line ''values (''"

definition closes_values :: "string \<Rightarrow> bool" where
  "closes_values line = contains line '');''"

definition rewrite_line :: "(nat \<times> nat) list \<Rightarrow> rewrite_state \<Rightarrow> nat \<Rightarrow> string \<Rightarrow> rewrite_state" where
  "rewrite_line output_ranges s i line =
     (let line_num = i + 1;
          s1 = (if current_range_index s < length output_ranges
                   \<and> fst (output_ranges ! current_range_index s) \<le> line_num
                then s\<lparr>is_in_output_range := True\<rparr> else s);
          s2 = (if is_in_output_range s1
                then let sa = (if opens_values line then s1\<lparr>is_scaling_values := True\<rparr> else s1);
                         modified_line = (if is_scaling_values sa \<or> is_index_line line
                                          then scale_numbers_in_line line else line);
                         sb = (if closes_values line then sa\<lparr>is_scaling_values := False\<rparr> else sa)
                     in sb\<lparr>modified_lines := modified_lines sb @ [modified_line]\<rparr>
                else s1\<lparr>modified_lines := modified_lines s1 @ [line]\<rparr>)
      in if current_range_index s2 < length output_ranges
            \<and> snd (output_ranges ! current_range_index s2) \<le> line_num
         then s2\<lparr>is_in_output_range := False, current_range_index := current_range_index s2 + 1\<rparr>
         else s2)"

fun rewrite_lines :: "(nat \<times> nat) list \<Rightarrow> rewrite_state \<Rightarrow> nat \<Rightarrow> string list \<Rightarrow> rewrite_state" where
  "rewrite_lines rs s i [] = s"
| "rewrite_lines rs s i (line # rest) = rewrite_lines rs (rewrite_line rs s i line) (i + 1) rest"

definition process_lines :: "string list \<Rightarrow> string list" where
  "process_lines lines =
     modified_lines (rewrite_lines (find_output_pin_line_ranges lines) rewrite_init 0 lines)"

section \<open>remove\_setup\_falling.py\<close>

text \<open>
  The three patterns of \<open>clean_lib_file\<close>, each run with \<open>re.search\<close> on the stripped
  line: \<^verbatim>\<open>^\s*timing\s*\(\s*\)\s*\{\<close>, \<^verbatim>\<open>related_pin\s*:\s*"clk"\s*;\<close> and
  \<^verbatim>\<open>timing_type\s*:\s*setup_falling\s*;\<close>. The fourth pattern only finds the pin name
  for the text of the message and is left out.
\<close>

definition timing_start_rx :: rx where
  "timing_start_rx =
     Cat Bol (Cat (Many is_space) (Lit ''timing'' (Cat (Many is_space) (Cat (Cls (\<lambda>c. c = CHR ''(''))
    (Cat (Many is_space) (Cat (Cls (\<lambda>c. c = CHR '')'')) (Cat (Many is_space) (Cls (\<lambda>c. c = CHR ''{'')))))))))"

definition related_pin_rx :: rx where
  "related_pin_rx =
     Lit ''related_pin'' (Cat (Many is_space) (Cat (Cls (\<lambda>c. c = CHR '':'')) (Cat (Many is_space)
    (Lit [CHR 0x22, CHR ''c'', CHR ''l'', CHR ''k'', CHR 0x22] (Cat (Many is_space) (Cls (\<lambda>c. c = CHR '';'')))))))"

definition timing_type_rx :: rx where
  "timing_type_rx =
     Lit ''timing_type'' (Cat (Many is_space) (Cat (Cls (\<lambda>c. c = CHR '':'')) (Cat (Many is_space)
    (Lit ''setup_falling'' (Cat (Many is_space) (Cls (\<lambda>c. c = CHR '';'')))))))"

definition timing_start_match :: "string \<Rightarrow> bool" where
  "timing_start_match line = rx_search timing_start_rx [] (strip line)"

definition names_clk :: "string \<Rightarrow> bool" where
  "names_clk line = rx_search related_pin_rx [] (strip line)"

definition names_setup_falling :: "string \<Rightarrow> bool" where
  "names_setup_falling line = rx_search timing_type_rx [] (strip line)"

text \<open>
  The loop variables of \<open>clean_lib_file\<close>. \<open>written\<close> collects the arguments of
  \<open>f_out.write\<close> in order; \<open>removed_report\<close> collects the line ranges of the
  \<open>[REMOVED]\<close> messages.
\<close>

record clean_state =
  in_timing_block :: bool
  brace_level :: int
  current_timing_block_lines :: "string list"
  found_clk :: bool
  found_setup_falling :: bool
  line_number :: nat
  block_start_line :: nat
  written :: "string list"
  removed_blocks_count :: nat
  removed_report :: "(nat \<times> nat) list"

definition clean_init :: clean_state where
  "clean_init = \<lparr>in_timing_block = False, brace_level = 0, current_timing_block_lines = [],
     found_clk = False, found_setup_falling = False, line_number = 0, block_start_line = 0,
     written = [], removed_blocks_count = 0, removed_report = []\<rparr>"

definition end_block :: "clean_state \<Rightarrow> clean_state" where
  "end_block s =
     (let s1 = s\<lparr>in_timing_block := False\<rparr>;
          s2 = (if found_clk s1 \<and> found_setup_falling s1
                then s1\<lparr>removed_blocks_count := removed_blocks_count s1 + 1,
                        removed_report := removed_report s1 @ [(block_start_line s1, line_number s1)]\<rparr>
                else s1\<lparr>written := written s1 @ current_timing_block_lines s1\<rparr>)
      in s2\<lparr>current_timing_block_lines := []\<rparr>)"

definition clean_line :: "clean_state \<Rightarrow> string \<Rightarrow> clean_state" where
  "clean_line s0 line =
     (let s = s0\<lparr>line_number := line_number s0 + 1\<rparr> in
      if timing_start_match line \<and> \<not> in_timing_block s
      then s\<lparr>in_timing_block := True, brace_level := 1, block_start_line := line_number s,
             current_timing_block_lines := [line], found_clk := False, found_setup_falling := False\<rparr>
      else if in_timing_block s
      then let s1 = s\<lparr>current_timing_block_lines := current_timing_block_lines s @ [line]\<rparr>;
               s2 = (if names_clk line then s1\<lparr>found_clk := True\<rparr> else s1);
               s3 = (if names_setup_falling line then s2\<lparr>found_setup_falling := True\<rparr> else s2);
               s4 = s3\<lparr>brace_level := brace_level s3 + brace_delta line\<rparr>
           in if brace_level s4 = 0 then end_block s4 else s4
      else s\<lparr>written := written s @ [line]\<rparr>)"

definition clean_loop :: "clean_state \<Rightarrow> string list \<Rightarrow> clean_state" where
  "clean_loop s lines = foldl clean_line s lines"

definition clean_lines :: "string list \<Rightarrow> string list" where
  "clean_lines lines = written (clean_loop clean_init lines)"

text \<open>
  The blocks as \<open>clean_lib_file\<close> delimits them, written as a parser of the line
  sequence: a header line outside a block opens one at level 1 (the braces of the header
  line itself are not counted); the block runs to the first later line at which the
  level, moved by the braces of each line, is 0. A header with no such line leaves the
  rest of the file in an open block.
\<close>

datatype segment = Outside string | Block "string list" | Unclosed "string list"

fun take_block :: "int \<Rightarrow> string list \<Rightarrow> (string list \<times> string list) option" where
  "take_block lvl [] = None"
| "take_block lvl (line # rest) =
     (if lvl + brace_delta line = 0 then Some ([line], rest)
      else case take_block (lvl + brace_delta line) rest of
             None \<Rightarrow> None
           | Some (body, rest') \<Rightarrow> Some (line # body, rest'))"

function segments :: "string list \<Rightarrow> segment list" where
  "segments [] = []"
| "segments (line # rest) =
     (if timing_start_match line
      then case take_block 1 rest of
             None \<Rightarrow> [Unclosed (line # rest)]
           | Some (body, rest') \<Rightarrow>
               if length rest' < length (line # rest) then Block (line # body) # segments rest'
               else [Unclosed (line # rest)]
      else Outside line # segments rest)"
  by pat_completeness auto
termination
  by (relation "measure length") auto

text \<open>
  A block is removable when a line after its header names the pin \<open>clk\<close> and a line
  after its header names the type \<open>setup_falling\<close>.
\<close>

definition removable :: "string list \<Rightarrow> bool" where
  "removable blk = (list_ex names_clk (tl blk) \<and> list_ex names_setup_falling (tl blk))"

fun emit :: "segment \<Rightarrow> string list" where
  "emit (Outside line) = [line]"
| "emit (Block blk) = (if removable blk then [] else blk)"
| "emit (Unclosed blk) = []"


definition removed_blocks :: "string list \<Rightarrow> string list list" where
  "removed_blocks lines = concat (map (\<lambda>g. case g of Block blk \<Rightarrow> (if removable blk then [blk] else []) | _ \<Rightarrow> []) (segments lines))"

text \<open>The number of lines covered by the \<open>[REMOVED]\<close> messages of a run.\<close>

definition removed_line_count :: "clean_state \<Rightarrow> nat" where
  "removed_line_count s = sum_list (map (\<lambda>(first, last). last + 1 - first) (removed_report s))"

text \<open>The state of an open block after the further lines \<open>ls\<close>, none of which closes it.\<close>

definition absorb :: "clean_state \<Rightarrow> string list \<Rightarrow> clean_state" where
  "absorb s ls = s\<lparr>current_timing_block_lines := current_timing_block_lines s @ ls,
      found_clk := found_clk s \<or> list_ex names_clk ls,
      found_setup_falling := found_setup_falling s \<or> list_ex names_setup_falling ls,
      brace_level := brace_level s + sum_list (map brace_delta ls),
      line_number := line_number s + length ls\<rparr>"

fun is_unclosed :: "segment \<Rightarrow> bool" where
  "is_unclosed (Unclosed blk) = True"
| "is_unclosed g = False"

text \<open>The segments whose lines reach the output.\<close>

fun kept :: "segment \<Rightarrow> bool" where
  "kept (Outside l) = True"
| "kept (Block blk) = (\<not> removable blk)"
| "kept (Unclosed blk) = False"






section \<open>Files\<close>

text \<open>
  A file system maps a path to the text of the file. The scripts act on it through
  \<open>open(path, 'w')\<close>, which truncates at once, \<open>write\<close>, \<open>shutil.move\<close> and
  \<open>os.remove\<close>. A run is the list of these actions in program order; a run that is cut
  short by a crash or an error has performed a prefix of it.
\<close>

type_synonym fs = "string \<Rightarrow> string option"

datatype fs_op = Truncate string | Write string string | Move string string | Remove string

fun exec_op :: "fs \<Rightarrow> fs_op \<Rightarrow> fs" where
  "exec_op f (Truncate p) = f(p \<mapsto> [])"
| "exec_op f (Write p txt) = f(p \<mapsto> (case f p of None \<Rightarrow> txt | Some old \<Rightarrow> old @ txt))"
| "exec_op f (Move src dst) = (f(dst := f src))(src := None)"
| "exec_op f (Remove p) = f(p := None)"

definition run_ops :: "fs \<Rightarrow> fs_op list \<Rightarrow> fs" where
  "run_ops f ops = foldl exec_op f ops"

text \<open>
  The files are opened in text mode with the default \<open>newline=None\<close>: on reading,
  \<open>\r\n\<close> and a lone \<open>\r\<close> are both handed to the program as \<open>\n\<close>. On writing,
  \<open>\n\<close> is written as the line separator of the platform, which is \<open>\n\<close> itself here.
\<close>

fun translate_newlines :: "string \<Rightarrow> string" where
  "translate_newlines [] = []"
| "translate_newlines [c] = [if c = CHR 0x0D then CHR 0x0A else c]"
| "translate_newlines (c # d # ds) =
     (if c = CHR 0x0D \<and> d = CHR 0x0A then CHR 0x0A # translate_newlines ds
      else if c = CHR 0x0D then CHR 0x0A # translate_newlines (d # ds)
      else c # translate_newlines (d # ds))"

text \<open>The text cut behind each \<open>\n\<close>; a last line without \<open>\n\<close> is a line too.\<close>

fun split_lines :: "string \<Rightarrow> string list" where
  "split_lines [] = []"
| "split_lines (c # cs) =
     (if c = CHR 0x0A then [c] # split_lines cs
      else case split_lines cs of [] \<Rightarrow> [[c]] | l # ls \<Rightarrow> (c # l) # ls)"

text \<open>\<open>f.read()\<close>, and \<open>f.readlines()\<close> or the iteration over the file.\<close>

definition read_text :: "string \<Rightarrow> string" where
  "read_text txt = translate_newlines txt"

definition readlines :: "string \<Rightarrow> string list" where
  "readlines txt = split_lines (translate_newlines txt)"

text \<open>
  \<open>clean_lib_file(filename)\<close>: a missing file is skipped; otherwise the kept lines go
  to \<open>filename + ".tmp"\<close>, which is moved over the original after the loop.
\<close>

definition temp_filename :: "string \<Rightarrow> string" where
  "temp_filename filename = filename @ ''.tmp''"

definition clean_lib_file_ops :: "fs \<Rightarrow> string \<Rightarrow> fs_op list" where
  "clean_lib_file_ops f filename =
     (case f filename of
        None \<Rightarrow> []
      | Some txt \<Rightarrow>
          Truncate (temp_filename filename)
          # map (Write (temp_filename filename)) (clean_lines (readlines txt))
          @ [Move (temp_filename filename) filename])"

definition clean_lib_file :: "fs \<Rightarrow> string \<Rightarrow> fs" where
  "clean_lib_file f filename = run_ops f (clean_lib_file_ops f filename)"

text \<open>
  A run of \<open>clean_lib_file\<close> that raises after \<open>n\<close> actions, before the move: the
  handler removes the temporary file and returns.
\<close>

definition clean_lib_file_failing :: "fs \<Rightarrow> string \<Rightarrow> nat \<Rightarrow> fs" where
  "clean_lib_file_failing f filename n =
     exec_op (run_ops f (take n (butlast (clean_lib_file_ops f filename)))) (Remove (temp_filename filename))"

text \<open>
  \<open>process_lib_file(input_path, output_path)\<close>: all lines are read first, then the
  output path is opened for writing and the lines are written to it. Without a second
  argument the command line passes the input path as output path.
\<close>

definition process_lib_file_ops :: "fs \<Rightarrow> string \<Rightarrow> string \<Rightarrow> fs_op list" where
  "process_lib_file_ops f input_path output_path =
     (case f input_path of
        None \<Rightarrow> []
      | Some txt \<Rightarrow> Truncate output_path # map (Write output_path) (process_lines (readlines txt)))"

definition process_lib_file :: "fs \<Rightarrow> string \<Rightarrow> string \<Rightarrow> fs" where
  "process_lib_file f input_path output_path = run_ops f (process_lib_file_ops f input_path output_path)"

text \<open>The paths an action changes.\<close>

fun op_paths :: "fs_op \<Rightarrow> string list" where
  "op_paths (Truncate p) = [p]"
| "op_paths (Write p txt) = [p]"
| "op_paths (Move src dst) = [src, dst]"
| "op_paths (Remove p) = [p]"

section \<open>update\_lib\_area.py\<close>

text \<open>
  \<open>LIB_AREA_RE\<close> is \<^verbatim>\<open>(^\s*area\s*:\s*)[0-9.]+(\s*;)\<close> with \<open>MULTILINE\<close> and
  \<open>IGNORECASE\<close>: group 1, the number, group 2. The three parts are matched in
  sequence with backtracking across them; the first combination is the match.
\<close>

definition is_area_char :: "char \<Rightarrow> bool" where
  "is_area_char c = (is_digit c \<or> c = CHR ''.'')"

definition area_group1 :: rx where
  "area_group1 =
     Cat BolMultiline (Cat (Many is_space)
    (Cat (Cls (\<lambda>c. c = CHR ''a'' \<or> c = CHR ''A'')) (Cat (Cls (\<lambda>c. c = CHR ''r'' \<or> c = CHR ''R''))
    (Cat (Cls (\<lambda>c. c = CHR ''e'' \<or> c = CHR ''E'')) (Cat (Cls (\<lambda>c. c = CHR ''a'' \<or> c = CHR ''A''))
    (Cat (Many is_space) (Cat (Cls (\<lambda>c. c = CHR '':'')) (Many is_space))))))))"

definition area_number :: rx where
  "area_number = Cat (Cls is_area_char) (Many is_area_char)"

definition area_group2 :: rx where
  "area_group2 = Cat (Many is_space) (Cls (\<lambda>c. c = CHR '';''))"

definition rx_ends3 :: "rx \<Rightarrow> rx \<Rightarrow> rx \<Rightarrow> string \<Rightarrow> string \<Rightarrow> (string \<times> string \<times> string) list" where
  "rx_ends3 r1 r2 r3 b a =
     concat (map (\<lambda>(b1, a1).
       concat (map (\<lambda>(b2, a2).
         map (\<lambda>(b3, a3). (a1, a2, a3)) (rx_ends r3 b2 a2)) (rx_ends r2 b1 a1))) (rx_ends r1 b a))"

text \<open>
  The match at a position, as the texts of group 1, of the number and of group 2, with
  the text behind the match.
\<close>

definition area_match :: "string \<Rightarrow> string \<Rightarrow> (string \<times> string \<times> string \<times> string) option" where
  "area_match b a =
     (case rx_ends3 area_group1 area_number area_group2 b a of
        [] \<Rightarrow> None
      | (a1, a2, a3) # _ \<Rightarrow>
          Some (take (length a - length a1) a, take (length a1 - length a2) a1,
                take (length a2 - length a3) a2, a3))"

function area_pieces :: "string \<Rightarrow> string \<Rightarrow> (char + string \<times> string \<times> string) list" where
  "area_pieces b [] = []"
| "area_pieces b (c # cs) =
     (case area_match b (c # cs) of
        None \<Rightarrow> Inl c # area_pieces (c # b) cs
      | Some (g1, num, g2, rest) \<Rightarrow>
          if length rest < length (c # cs)
          then Inr (g1, num, g2) # area_pieces (rev (g1 @ num @ g2) @ b) rest
          else Inl c # area_pieces (c # b) cs)"
  by pat_completeness auto
termination
  by (relation "measure (\<lambda>(b, a). length a)") auto

text \<open>\<open>LIB_AREA_RE.subn(replacement_string, lib_content)\<close> with \<^verbatim>\<open>\g<1>{formatted_area}\g<2>\<close>.\<close>

definition area_subn :: "string \<Rightarrow> string \<Rightarrow> string \<times> nat" where
  "area_subn formatted_area lib_content =
     (let ps = area_pieces [] lib_content in
      (concat (map (\<lambda>p. case p of Inl c \<Rightarrow> [c] | Inr (g1, num, g2) \<Rightarrow> g1 @ formatted_area @ g2) ps),
       length (filter (\<lambda>p. \<not> isl p) ps)))"

text \<open>
  The area is a non-negative \<open>Decimal\<close>: a coefficient and an exponent.
  \<open>f"{area:f}".rstrip('0').rstrip('.')\<close> writes it positionally and then strips.
\<close>

datatype decimal = Decimal int int

definition format_f :: "decimal \<Rightarrow> string" where
  "format_f x = (case x of Decimal c e \<Rightarrow>
     if 0 \<le> e then digits_of_int (c * 10 ^ nat e)
     else let ds = digits_of_int c; k = nat (- e) in
          if k < length ds then take (length ds - k) ds @ ''.'' @ drop (length ds - k) ds
          else ''0.'' @ replicate (k - length ds) (CHR ''0'') @ ds)"

definition rstrip_char :: "char \<Rightarrow> string \<Rightarrow> string" where
  "rstrip_char c s = rev (dropWhile (\<lambda>x. x = c) (rev s))"

definition formatted_area :: "decimal \<Rightarrow> string" where
  "formatted_area area = rstrip_char (CHR ''.'') (rstrip_char (CHR ''0'') (format_f area))"


definition update_lib_file_ops :: "fs \<Rightarrow> string \<Rightarrow> decimal \<Rightarrow> fs_op list" where
  "update_lib_file_ops f lib_file_path area =
     (case f lib_file_path of
        None \<Rightarrow> []
      | Some txt \<Rightarrow>
          let (new_lib_content, count) = area_subn (formatted_area area) (read_text txt) in
          if count = 0 then [] else [Truncate lib_file_path, Write lib_file_path new_lib_content])"


section \<open>Sample inputs\<close>

definition quoted :: "string \<Rightarrow> string" where
  "quoted s = [CHR 0x22] @ s @ [CHR 0x22]"



definition open_block_example :: string where
  "open_block_example = ''cell (c) {'' @ [CHR 0x0A] @ ''timing () {'' @ [CHR 0x0A] @ ''x {'' @ [CHR 0x0A] @ ''}'' @ [CHR 0x0A]"

definition one_file :: "string \<Rightarrow> string \<Rightarrow> fs" where
  "one_file path txt = (\<lambda>p. if p = path then Some txt else None)"


definition area_file_example :: string where
  "area_file_example = ''  area : 0 ;'' @ [CHR 0x0A]"







definition stray_brace_example :: "string list" where
  "stray_brace_example =
     [''pin (a) {'',
      ''  direction : output;'',
      ''  values ( '' @ quoted ''1'' @ '' );'',
      ''}'',
      ''}'']"

section \<open>Spans and the lines they select\<close>

text \<open>The brace depth after a sequence of lines, as both passes count it.\<close>

definition depth :: "string list \<Rightarrow> int" where
  "depth ls = sum_list (map brace_delta ls)"

text \<open>Line number \<open>n\<close>, counted from 1, lies in one of the spans.\<close>

definition in_range :: "(nat \<times> nat) list \<Rightarrow> nat \<Rightarrow> bool" where
  "in_range rs n = list_ex (\<lambda>(a, b). a \<le> n \<and> n \<le> b) rs"

text \<open>Spans that follow one another without overlap, all behind line \<open>m\<close>.\<close>

fun ascending :: "nat \<Rightarrow> (nat \<times> nat) list \<Rightarrow> bool" where
  "ascending m [] = True"
| "ascending m ((a, b) # rs) = (m < a \<and> a \<le> b \<and> ascending b rs)"

text \<open>
  A span from line \<open>a\<close> to line \<open>b\<close> of \<open>ls\<close> that is a closed output block: it
  starts at a header, the depth stays above the depth before the header until line
  \<open>b\<close>, where it is back at or below it, and one of its lines names the output
  direction.
\<close>

definition closed_span :: "string list \<Rightarrow> nat \<Rightarrow> nat \<Rightarrow> bool" where
  "closed_span ls a b =
     (1 \<le> a \<and> a \<le> b \<and> b \<le> length ls \<and> is_pin_header (ls ! (a - 1))
      \<and> depth (take b ls) \<le> depth (take (a - 1) ls)
      \<and> list_all (\<lambda>n. depth (take (a - 1) ls) < depth (take n ls)) [a..<b]
      \<and> list_ex (\<lambda>n. names_output (ls ! (n - 1))) [a..<Suc b])"

text \<open>A block opened at line \<open>l\<close> at depth \<open>d\<close> that is still open after the lines \<open>ls\<close>.\<close>

definition open_span :: "string list \<Rightarrow> nat \<Rightarrow> int \<Rightarrow> bool" where
  "open_span ls l d =
     (1 \<le> l \<and> l \<le> length ls \<and> is_pin_header (ls ! (l - 1)) \<and> d = depth (take (l - 1) ls)
      \<and> list_all (\<lambda>n. d < depth (take n ls)) [l..<Suc (length ls)])"

definition scan_inv :: "string list \<Rightarrow> scan_state \<Rightarrow> bool" where
  "scan_inv ls s =
     (brace_depth s = depth ls
      \<and> ascending 0 (ranges s)
      \<and> list_all (\<lambda>(a, b). closed_span ls a b) (ranges s)
      \<and> (in_pin_block s \<longrightarrow>
           (case block_start_info s of
              None \<Rightarrow> False
            | Some (l, d) \<Rightarrow> open_span ls l d \<and> list_all (\<lambda>(a, b). b < l) (ranges s)
                \<and> (is_output_pin s \<longrightarrow> list_ex (\<lambda>n. names_output (ls ! (n - 1))) [l..<Suc (length ls)]))))"

text \<open>
  The value of \<open>is_scaling_values\<close> when the second pass reaches line \<open>i\<close> (counted
  from 0): the flag is set and cleared on the lines of the spans only and keeps its
  value on all other lines.
\<close>

fun values_pending :: "(nat \<times> nat) list \<Rightarrow> string list \<Rightarrow> nat \<Rightarrow> bool" where
  "values_pending rs ls 0 = False"
| "values_pending rs ls (Suc i) =
     (if in_range rs (Suc i)
      then (values_pending rs ls i \<or> opens_values (ls ! i)) \<and> \<not> closes_values (ls ! i)
      else values_pending rs ls i)"

definition rewritten_line :: "(nat \<times> nat) list \<Rightarrow> string list \<Rightarrow> nat \<Rightarrow> string" where
  "rewritten_line rs ls i =
     (if in_range rs (i + 1) \<and> (values_pending rs ls i \<or> opens_values (ls ! i) \<or> is_index_line (ls ! i))
      then scale_numbers_in_line (ls ! i) else ls ! i)"

text \<open>The second pass with membership in a span in place of the running index.\<close>

fun select_lines :: "(nat \<times> nat) list \<Rightarrow> bool \<Rightarrow> nat \<Rightarrow> string list \<Rightarrow> string list" where
  "select_lines rs sv i [] = []"
| "select_lines rs sv i (line # rest) =
     (if in_range rs (i + 1)
      then (if sv \<or> opens_values line \<or> is_index_line line then scale_numbers_in_line line else line)
           # select_lines rs ((sv \<or> opens_values line) \<and> \<not> closes_values line) (i + 1) rest
      else line # select_lines rs sv (i + 1) rest)"

text \<open>
  The state of the second pass before line \<open>i + 1\<close>: the span at the running index, if
  there is one, ends behind line \<open>i\<close>, and the later spans follow it.
\<close>

definition rewrite_inv :: "(nat \<times> nat) list \<Rightarrow> rewrite_state \<Rightarrow> nat \<Rightarrow> bool" where
  "rewrite_inv rs s i =
     (case drop (current_range_index s) rs of
        [] \<Rightarrow> \<not> is_in_output_range s
      | (a, b) # rest \<Rightarrow> a \<le> b \<and> i < b \<and> ascending b rest \<and> (is_in_output_range s \<longrightarrow> a \<le> i))"

section \<open>What a pattern matches\<close>

text \<open>
  The text \<open>t\<close> is matched by the pattern between the text \<open>b\<close> before it (reversed)
  and the text \<open>a'\<close> behind it: the meaning of the pattern, apart from the order in
  which the matcher tries the alternatives.
\<close>

fun rx_text :: "rx \<Rightarrow> string \<Rightarrow> string \<Rightarrow> string \<Rightarrow> bool" where
  "rx_text (Cls p) b t a' = (\<exists>c. t = [c] \<and> p c)"
| "rx_text (Many p) b t a' = list_all p t"
| "rx_text (Opt r) b t a' = (t = [] \<or> rx_text r b t a')"
| "rx_text (Cat r s) b t a' =
     (\<exists>t1 t2. t = t1 @ t2 \<and> rx_text r b t1 (t2 @ a') \<and> rx_text s (rev t1 @ b) t2 a')"
| "rx_text (NotBehind p) b t a' = (t = [] \<and> (b = [] \<or> \<not> p (hd b)))"
| "rx_text (NotAhead p) b t a' = (t = [] \<and> (a' = [] \<or> \<not> p (hd a')))"
| "rx_text Bol b t a' = (t = [] \<and> b = [])"
| "rx_text BolMultiline b t a' = (t = [] \<and> (b = [] \<or> hd b = CHR 0x0A))"

text \<open>The text of a list of pieces, with the tokens as they were matched.\<close>

definition pieces_text :: "(char + string) list \<Rightarrow> string" where
  "pieces_text ps = join_pieces (\<lambda>tok. tok) ps"

text \<open>Every digit of the line stands immediately behind a word character.\<close>

definition digits_embedded :: "string \<Rightarrow> bool" where
  "digits_embedded line =
     list_all (\<lambda>i. is_digit (line ! i) \<longrightarrow> 0 < i \<and> is_word (line ! (i - 1))) [0..<length line]"

text \<open>
  The text of the pieces of \<open>LIB_AREA_RE.subn\<close> with \<open>f\<close> applied to the number of each
  match, and the number of matches among the pieces.
\<close>

definition area_text :: "(string \<Rightarrow> string) \<Rightarrow> (char + string \<times> string \<times> string) list \<Rightarrow> string" where
  "area_text f ps =
     concat (map (\<lambda>p. case p of Inl c \<Rightarrow> [c] | Inr (g1, num, g2) \<Rightarrow> g1 @ f num @ g2) ps)"



section \<open>The matcher finds matches of the pattern\<close>

lemma many_ends_sound:
  "(b', a') \<in> set (many_ends p b a) \<Longrightarrow> \<exists>t. a = t @ a' \<and> b' = rev t @ b \<and> list_all p t"
proof (induction a arbitrary: b)
  case Nil
  then show ?case by simp
next
  case (Cons c cs)
  show ?case
  proof (cases "p c \<and> (b', a') \<in> set (many_ends p (c # b) cs)")
    case True
    with Cons.IH [of "c # b"] obtain t where "cs = t @ a'" "b' = rev t @ c # b" "list_all p t"
      by blast
    with True have "c # cs = (c # t) @ a' \<and> b' = rev (c # t) @ b \<and> list_all p (c # t)"
      by simp
    then show ?thesis by blast
  next
    case False
    with Cons.prems have "b' = b" "a' = c # cs"
      by (auto split: if_splits)
    then have "c # cs = [] @ a' \<and> b' = rev [] @ b \<and> list_all p []" by simp
    then show ?thesis by blast
  qed
qed

lemma rx_ends_sound:
  "(b', a') \<in> set (rx_ends r b a) \<Longrightarrow> \<exists>t. a = t @ a' \<and> b' = rev t @ b \<and> rx_text r b t a'"
proof (induction r arbitrary: b a b' a')
  case (Cls p)
  then show ?case by (cases a) (auto split: if_splits)
next
  case (Many p)
  then show ?case using many_ends_sound [of b' a' p b a] by simp
next
  case (Opt r)
  from Opt.prems have "(b', a') \<in> set (rx_ends r b a) \<or> (b' = b \<and> a' = a)" by auto
  then show ?case
  proof
    assume "(b', a') \<in> set (rx_ends r b a)"
    from Opt.IH [OF this] show ?thesis by auto
  next
    assume "b' = b \<and> a' = a"
    then have "a = [] @ a' \<and> b' = rev [] @ b \<and> rx_text (Opt r) b [] a'" by simp
    then show ?thesis by blast
  qed
next
  case (Cat r s)
  from Cat.prems obtain b1 a1 where m: "(b1, a1) \<in> set (rx_ends r b a)"
    and e: "(b', a') \<in> set (rx_ends s b1 a1)"
    by auto
  from Cat.IH(1) [OF m] obtain t1 where t1: "a = t1 @ a1" "b1 = rev t1 @ b" "rx_text r b t1 a1"
    by blast
  from Cat.IH(2) [OF e] obtain t2 where t2: "a1 = t2 @ a'" "b' = rev t2 @ b1" "rx_text s b1 t2 a'"
    by blast
  from t1 t2 have "a = (t1 @ t2) @ a' \<and> b' = rev (t1 @ t2) @ b \<and> rx_text (Cat r s) b (t1 @ t2) a'"
    by auto
  then show ?case by blast
next
  case (NotBehind p)
  then show ?case by (cases b) (auto split: if_splits)
next
  case (NotAhead p)
  then show ?case by (cases a) (auto split: if_splits)
next
  case Bol
  then show ?case by (auto split: if_splits)
next
  case BolMultiline
  then show ?case by (cases b) (auto split: if_splits)
qed

lemma rx_first_sound:
  "rx_first r b a = Some (b', a') \<Longrightarrow> \<exists>t. a = t @ a' \<and> b' = rev t @ b \<and> rx_text r b t a'"
proof -
  assume "rx_first r b a = Some (b', a')"
  then have "(b', a') \<in> set (rx_ends r b a)"
    by (auto simp: rx_first_def split: list.splits)
  then show ?thesis by (rule rx_ends_sound)
qed

section \<open>The tokens of \<open>scale_numbers_in_line\<close>\<close>

lemma join_pieces_Nil [simp]: "join_pieces f [] = []"
  by (simp add: join_pieces_def)

lemma join_pieces_Inl [simp]: "join_pieces f (Inl c # ps) = c # join_pieces f ps"
  by (simp add: join_pieces_def)

lemma join_pieces_Inr [simp]: "join_pieces f (Inr tok # ps) = f tok @ join_pieces f ps"
  by (simp add: join_pieces_def)

lemma join_pieces_append [simp]: "join_pieces f (ps @ qs) = join_pieces f ps @ join_pieces f qs"
  by (simp add: join_pieces_def)

lemma pieces_text_sub_pieces: "pieces_text (sub_pieces r b a) = a"
proof (induction r b a rule: sub_pieces.induct)
  case (1 r b)
  show ?case by (simp add: pieces_text_def)
next
  case (2 r b c cs)
  show ?case
  proof (cases "rx_first r b (c # cs)")
    case None
    with "2.IH"(1) show ?thesis by (simp add: pieces_text_def)
  next
    case (Some e)
    obtain b' a' where e: "e = (b', a')" by (cases e)
    show ?thesis
    proof (cases "length a' < length (c # cs)")
      case False
      with Some e "2.IH"(3) show ?thesis by (simp add: pieces_text_def)
    next
      case True
      from rx_first_sound [OF Some [unfolded e]] obtain t where t: "c # cs = t @ a'"
        by blast
      then have tk: "take (length (c # cs) - length a') (c # cs) = t"
        by (metis append_eq_conv_conj length_append add_diff_cancel_right')
      have step: "sub_pieces r b (c # cs) = Inr t # sub_pieces r b' a'"
        using Some e True tk by simp
      from "2.IH"(2) [OF Some e [symmetric] True]
      have "pieces_text (sub_pieces r b' a') = a'" .
      then show ?thesis
        unfolding step using t by (simp add: pieces_text_def)
    qed
  qed
qed

lemma sub_pieces_token:
  "sub_pieces r b a = ps1 @ Inr tok # ps2 \<Longrightarrow>
   a = pieces_text ps1 @ tok @ pieces_text ps2
   \<and> rx_text r (rev (pieces_text ps1) @ b) tok (pieces_text ps2)"
proof (induction r b a arbitrary: ps1 rule: sub_pieces.induct)
  case (1 r b)
  then show ?case by simp
next
  case (2 r b c cs)
  show ?case
  proof (cases "rx_first r b (c # cs)")
    case None
    with "2.prems" have eq: "Inl c # sub_pieces r (c # b) cs = ps1 @ Inr tok # ps2" by simp
    then obtain ps1' where ps1: "ps1 = Inl c # ps1'" and r: "sub_pieces r (c # b) cs = ps1' @ Inr tok # ps2"
      by (cases ps1) auto
    from "2.IH"(1) [OF None r] show ?thesis
      by (simp add: ps1 pieces_text_def)
  next
    case (Some e)
    obtain b' a' where e: "e = (b', a')" by (cases e)
    show ?thesis
    proof (cases "length a' < length (c # cs)")
      case False
      with Some e "2.prems" have eq: "Inl c # sub_pieces r (c # b) cs = ps1 @ Inr tok # ps2" by simp
      then obtain ps1' where ps1: "ps1 = Inl c # ps1'" and r: "sub_pieces r (c # b) cs = ps1' @ Inr tok # ps2"
        by (cases ps1) auto
      from "2.IH"(3) [OF Some e [symmetric] False r] show ?thesis
        by (simp add: ps1 pieces_text_def)
    next
      case True
      from rx_first_sound [OF Some [unfolded e]] obtain t
        where t: "c # cs = t @ a'" "b' = rev t @ b" "rx_text r b t a'"
        by blast
      then have tk: "take (length (c # cs) - length a') (c # cs) = t"
        by (metis append_eq_conv_conj length_append add_diff_cancel_right')
      have step: "sub_pieces r b (c # cs) = Inr t # sub_pieces r b' a'"
        using Some e True tk by simp
      from "2.prems" have eq: "Inr t # sub_pieces r b' a' = ps1 @ Inr tok # ps2"
        unfolding step .
      show ?thesis
      proof (cases ps1)
        case Nil
        with eq have tok: "tok = t" and rest: "sub_pieces r b' a' = ps2" by simp_all
        from rest have "pieces_text ps2 = a'"
          using pieces_text_sub_pieces [of r b' a'] by simp
        with t tok Nil show ?thesis by (simp add: pieces_text_def)
      next
        case (Cons p ps1')
        with eq have p: "p = Inr t" and r: "sub_pieces r b' a' = ps1' @ Inr tok # ps2" by simp_all
        from "2.IH"(2) [OF Some e [symmetric] True r]
        have ih: "a' = pieces_text ps1' @ tok @ pieces_text ps2"
          "rx_text r (rev (pieces_text ps1') @ b') tok (pieces_text ps2)"
          by simp_all
        have pt: "pieces_text ps1 = t @ pieces_text ps1'"
          by (simp add: Cons p pieces_text_def)
        from ih t show ?thesis
          unfolding pt by simp
      qed
    qed
  qed
qed

lemma number_rx_delimited:
  "rx_text number_rx b t a' \<Longrightarrow>
   t \<noteq> [] \<and> (b = [] \<or> \<not> is_word (hd b)) \<and> (a' = [] \<or> \<not> is_word (hd a'))
   \<and> (is_digit (hd t) \<or> (hd t = CHR ''-'' \<and> tl t \<noteq> [] \<and> is_digit (hd (tl t))))"
  unfolding number_rx_def Many1_def Eps_def
  by (auto simp: list_all_iff)

lemma minus_not_word: "\<not> is_word (CHR ''-'')"
  by code_simp

lemma number_rx_no_match:
  assumes "is_digit c \<longrightarrow> b \<noteq> [] \<and> is_word (hd b)"
    and "cs \<noteq> [] \<and> is_digit (hd cs) \<longrightarrow> is_word c"
  shows "rx_first number_rx b (c # cs) = None"
proof (cases "rx_first number_rx b (c # cs)")
  case None
  then show ?thesis .
next
  case (Some e)
  obtain b' a' where e: "e = (b', a')" by (cases e)
  from rx_first_sound [OF Some [unfolded e]] obtain t
    where t: "c # cs = t @ a'" "rx_text number_rx b t a'"
    by blast
  from number_rx_delimited [OF t(2)] have ne: "t \<noteq> []"
    and nb: "b = [] \<or> \<not> is_word (hd b)"
    and st: "is_digit (hd t) \<or> (hd t = CHR ''-'' \<and> tl t \<noteq> [] \<and> is_digit (hd (tl t)))"
    by simp_all
  from ne t(1) have hd: "hd t = c" by (cases t) auto
  from st show ?thesis
  proof
    assume "is_digit (hd t)"
    with hd assms(1) nb show ?thesis by auto
  next
    assume m: "hd t = CHR ''-'' \<and> tl t \<noteq> [] \<and> is_digit (hd (tl t))"
    with ne t(1) have "cs \<noteq> [] \<and> hd cs = hd (tl t)"
      by (cases t) (auto simp: neq_Nil_conv)
    with m assms(2) hd minus_not_word show ?thesis by auto
  qed
qed

lemma sub_pieces_embedded:
  "\<forall>i<length a. is_digit (a ! i) \<longrightarrow> (if i = 0 then b \<noteq> [] \<and> is_word (hd b) else is_word (a ! (i - 1)))
   \<Longrightarrow> sub_pieces number_rx b a = map Inl a"
proof (induction a arbitrary: b)
  case Nil
  show ?case by simp
next
  case (Cons c cs)
  from Cons.prems [rule_format, of 0] have h0: "is_digit c \<longrightarrow> b \<noteq> [] \<and> is_word (hd b)"
    by simp
  have h1: "cs \<noteq> [] \<and> is_digit (hd cs) \<longrightarrow> is_word c"
  proof
    assume a: "cs \<noteq> [] \<and> is_digit (hd cs)"
    then have "1 < length (c # cs)" "is_digit ((c # cs) ! 1)"
      by (auto simp: hd_conv_nth)
    with Cons.prems [rule_format, of 1] show "is_word c" by simp
  qed
  have none: "rx_first number_rx b (c # cs) = None"
    using h0 h1 by (rule number_rx_no_match)
  have "\<forall>i<length cs. is_digit (cs ! i) \<longrightarrow>
      (if i = 0 then c # b \<noteq> [] \<and> is_word (hd (c # b)) else is_word (cs ! (i - 1)))"
  proof (intro allI impI)
    fix i
    assume i: "i < length cs" and d: "is_digit (cs ! i)"
    from i d Cons.prems [rule_format, of "Suc i"] have "is_word ((c # cs) ! i)" by simp
    then show "if i = 0 then c # b \<noteq> [] \<and> is_word (hd (c # b)) else is_word (cs ! (i - 1))"
      by (cases i) simp_all
  qed
  from Cons.IH [OF this] none show ?case by simp
qed

lemma scale_embedded: "digits_embedded line \<Longrightarrow> scale_numbers_in_line line = line"
proof -
  assume "digits_embedded line"
  then have "\<forall>i<length line. is_digit (line ! i) \<longrightarrow>
      (if i = 0 then ([]::string) \<noteq> [] \<and> is_word (hd []) else is_word (line ! (i - 1)))"
    by (auto simp: digits_embedded_def list_all_iff)
  from sub_pieces_embedded [OF this] show ?thesis
    by (simp add: scale_numbers_in_line_def join_pieces_def comp_def)
qed

section \<open>The loop of \<open>clean_lib_file\<close> and the blocks of the file\<close>

lemma take_block_split:
  "take_block lvl ls = Some (body, rest) \<Longrightarrow> ls = body @ rest \<and> body \<noteq> []"
  by (induction ls arbitrary: lvl body) (auto split: if_splits option.splits)

lemma take_block_append:
  "take_block lvl ls = Some (body, rest) \<Longrightarrow> take_block lvl (body @ xs) = Some (body, xs)"
  by (induction ls arbitrary: lvl body) (auto split: if_splits option.splits)

lemma clean_loop_Nil [simp]: "clean_loop s [] = s"
  by (simp add: clean_loop_def)

lemma clean_loop_Cons [simp]: "clean_loop s (l # ls) = clean_loop (clean_line s l) ls"
  by (simp add: clean_loop_def)

lemma clean_loop_append: "clean_loop s (xs @ ys) = clean_loop (clean_loop s xs) ys"
  by (simp add: clean_loop_def)

lemma clean_line_in_block:
  "in_timing_block s \<Longrightarrow>
   clean_line s l = (if brace_level s + brace_delta l = 0 then end_block (absorb s [l]) else absorb s [l])"
  by (auto simp: clean_line_def absorb_def Let_def
      intro!: arg_cong [where f = end_block] clean_state.equality)

lemma absorb_absorb: "absorb (absorb s xs) ys = absorb s (xs @ ys)"
  by (auto simp: absorb_def intro!: clean_state.equality)

lemma absorb_Nil: "absorb s [] = s"
  by (simp add: absorb_def)

lemma clean_loop_in_block:
  "in_timing_block s \<Longrightarrow>
   clean_loop s ls = (case take_block (brace_level s) ls of
       None \<Rightarrow> absorb s ls
     | Some (body, rest) \<Rightarrow> clean_loop (end_block (absorb s body)) rest)"
proof (induction ls arbitrary: s)
  case Nil
  then show ?case by (simp add: absorb_Nil)
next
  case (Cons l ls)
  show ?case
  proof (cases "brace_level s + brace_delta l = 0")
    case True
    with Cons.prems show ?thesis by (simp add: clean_line_in_block)
  next
    case False
    have inb: "in_timing_block (absorb s [l])"
      using Cons.prems by (simp add: absorb_def)
    have lvl: "brace_level (absorb s [l]) = brace_level s + brace_delta l"
      by (simp add: absorb_def)
    from False Cons.prems have "clean_loop s (l # ls) = clean_loop (absorb s [l]) ls"
      by (simp add: clean_line_in_block)
    also have "\<dots> = (case take_block (brace_level s + brace_delta l) ls of
       None \<Rightarrow> absorb (absorb s [l]) ls
     | Some (body, rest) \<Rightarrow> clean_loop (end_block (absorb (absorb s [l]) body)) rest)"
      using Cons.IH [OF inb] by (simp add: lvl)
    finally show ?thesis using False
      by (simp add: absorb_absorb split: option.splits)
  qed
qed


lemma segments_print: "segments (l # ls) =
     (if timing_start_match l
      then case take_block 1 ls of
             None \<Rightarrow> [Unclosed (l # ls)]
           | Some (body, rest') \<Rightarrow> Block (l # body) # segments rest'
      else Outside l # segments ls)"
  by (auto split: option.splits dest: take_block_split)

lemma clean_line_outside:
  "\<not> in_timing_block s \<Longrightarrow> \<not> timing_start_match l \<Longrightarrow>
   clean_line s l = s\<lparr>line_number := line_number s + 1, written := written s @ [l]\<rparr>"
  by (simp add: clean_line_def Let_def)

lemma clean_line_enter:
  "\<not> in_timing_block s \<Longrightarrow> timing_start_match l \<Longrightarrow>
   clean_line s l = s\<lparr>line_number := line_number s + 1, in_timing_block := True, brace_level := 1,
      block_start_line := line_number s + 1, current_timing_block_lines := [l],
      found_clk := False, found_setup_falling := False\<rparr>"
  by (simp add: clean_line_def Let_def)

lemma removed_blocks_Cons:
  "removed_blocks (l # ls) =
     (if timing_start_match l
      then case take_block 1 ls of
             None \<Rightarrow> []
           | Some (body, rest') \<Rightarrow> (if removable (l # body) then [l # body] else []) @ removed_blocks rest'
      else removed_blocks ls)"
  unfolding removed_blocks_def segments_print by (simp split: option.splits)

lemma removed_blocks_Nil [simp]: "removed_blocks [] = []"
  by (simp add: removed_blocks_def)

lemma clean_loop_outside:
  "\<not> in_timing_block s \<Longrightarrow>
   written (clean_loop s ls) = written s @ concat (map emit (segments ls))
   \<and> removed_blocks_count (clean_loop s ls) = removed_blocks_count s + length (removed_blocks ls)
   \<and> removed_line_count (clean_loop s ls) = removed_line_count s + sum_list (map length (removed_blocks ls))
   \<and> line_number (clean_loop s ls) = line_number s + length ls
   \<and> length (removed_report (clean_loop s ls)) = length (removed_report s) + length (removed_blocks ls)
   \<and> (in_timing_block (clean_loop s ls) \<longleftrightarrow> list_ex is_unclosed (segments ls))"
proof (induction ls arbitrary: s rule: segments.induct)
  case 1
  then show ?case by simp
next
  case (2 l rest)
  show ?case
  proof (cases "timing_start_match l")
    case False
    let ?s1 = "s\<lparr>line_number := line_number s + 1, written := written s @ [l]\<rparr>"
    have step: "clean_line s l = ?s1"
      using "2.prems" False by (rule clean_line_outside)
    have out: "\<not> in_timing_block ?s1"
      using "2.prems" by simp
    from "2.IH"(2) [OF False out] show ?thesis
      using False by (simp add: step removed_blocks_Cons removed_line_count_def del: segments.simps add: segments_print)
  next
    case True
    let ?s1 = "s\<lparr>line_number := line_number s + 1, in_timing_block := True, brace_level := 1,
      block_start_line := line_number s + 1, current_timing_block_lines := [l],
      found_clk := False, found_setup_falling := False\<rparr>"
    have step: "clean_line s l = ?s1"
      using "2.prems" True by (rule clean_line_enter)
    have inb: "in_timing_block ?s1" by simp
    show ?thesis
    proof (cases "take_block 1 rest")
      case None
      have "clean_loop s (l # rest) = absorb ?s1 rest"
        using clean_loop_in_block [OF inb, of rest] None by (simp add: step)
      then show ?thesis
        using True None
        by (simp add: absorb_def removed_blocks_Cons removed_line_count_def del: segments.simps add: segments_print)
    next
      case (Some p)
      obtain body rest' where p: "p = (body, rest')" by (cases p)
      have tb: "take_block 1 rest = Some (body, rest')" using Some p by simp
      have len: "length rest' < length (l # rest)"
        using take_block_split [OF tb] by auto
      let ?s2 = "end_block (absorb ?s1 body)"
      have run: "clean_loop s (l # rest) = clean_loop ?s2 rest'"
        using clean_loop_in_block [OF inb, of rest] tb by (simp add: step)
      have out: "\<not> in_timing_block ?s2"
        by (simp add: end_block_def Let_def)
      have rm: "(found_clk (absorb ?s1 body) \<and> found_setup_falling (absorb ?s1 body)) = removable (l # body)"
        by (simp add: absorb_def removable_def)
      have w2: "written ?s2 = written s @ emit (Block (l # body))"
        using rm by (simp add: end_block_def Let_def absorb_def)
      have c2: "removed_blocks_count ?s2 = removed_blocks_count s + (if removable (l # body) then 1 else 0)"
        using rm by (simp add: end_block_def Let_def absorb_def)
      have r2: "removed_line_count ?s2 = removed_line_count s + (if removable (l # body) then length (l # body) else 0)"
        using rm by (simp add: end_block_def Let_def absorb_def removed_line_count_def)
      have p2: "length (removed_report ?s2) = length (removed_report s) + (if removable (l # body) then 1 else 0)"
        using rm by (simp add: end_block_def Let_def absorb_def)
      have l2: "line_number ?s2 = line_number s + 1 + length body"
        by (simp add: end_block_def Let_def absorb_def)
      have lens: "length (l # rest) = 1 + length body + length rest'"
        using take_block_split [OF tb] by auto
      from "2.IH"(1) [OF True tb [unfolded p [symmetric]] p [symmetric] len out]
      have ih: "written (clean_loop ?s2 rest') = written ?s2 @ concat (map emit (segments rest'))
        \<and> removed_blocks_count (clean_loop ?s2 rest') = removed_blocks_count ?s2 + length (removed_blocks rest')
        \<and> removed_line_count (clean_loop ?s2 rest') = removed_line_count ?s2 + sum_list (map length (removed_blocks rest'))
        \<and> line_number (clean_loop ?s2 rest') = line_number ?s2 + length rest'
        \<and> length (removed_report (clean_loop ?s2 rest')) = length (removed_report ?s2) + length (removed_blocks rest')
        \<and> (in_timing_block (clean_loop ?s2 rest') \<longleftrightarrow> list_ex is_unclosed (segments rest'))"
        by simp
      show ?thesis
        unfolding run segments_print removed_blocks_Cons
        using ih True tb w2 c2 r2 p2 l2 lens by simp
    qed
  qed
qed


text \<open>A block of the segmentation: a header and a body that closes at its last line.\<close>

lemma take_block_body:
  "take_block lvl ls = Some (body, rest) \<Longrightarrow> take_block lvl body = Some (body, [])"
  using take_block_append [of lvl ls body rest "[]"] by simp


lemma segments_block_append:
  "timing_start_match l \<Longrightarrow> take_block 1 body = Some (body, []) \<Longrightarrow>
   segments ((l # body) @ xs) = Block (l # body) # segments xs"
  using take_block_append [of 1 body body "[]" xs] by (simp add: segments_print del: segments.simps)

lemma segments_emit:
  "segments (concat (map emit (segments ls))) = filter kept (segments ls)"
proof (induction ls rule: segments.induct)
  case 1
  then show ?case by simp
next
  case (2 l rest)
  show ?case
  proof (cases "timing_start_match l")
    case False
    with "2.IH"(2) show ?thesis by simp
  next
    case True
    show ?thesis
    proof (cases "take_block 1 rest")
      case None
      with True show ?thesis by simp
    next
      case (Some p)
      obtain body rest' where p: "p = (body, rest')" by (cases p)
      have tb: "take_block 1 rest = Some (body, rest')" using Some p by simp
      have len: "length rest' < length (l # rest)"
        using take_block_split [OF tb] by auto
      have seg: "segments (l # rest) = Block (l # body) # segments rest'"
        unfolding segments_print using True tb by simp
      note ih = "2.IH"(1) [OF True tb [unfolded p [symmetric]] p [symmetric] len]
      show ?thesis
      proof (cases "removable (l # body)")
        case True
        then show ?thesis unfolding seg using ih by simp
      next
        case False
        have "segments ((l # body) @ concat (map emit (segments rest')))
              = Block (l # body) # segments (concat (map emit (segments rest')))"
          using True take_block_body [OF tb] by (rule segments_block_append)
        then show ?thesis unfolding seg using ih False by simp
      qed
    qed
  qed
qed

lemma emit_kept: "concat (map emit (filter kept gs)) = concat (map emit gs)"
proof (induction gs)
  case Nil
  then show ?case by simp
next
  case (Cons g gs)
  then show ?case by (cases g) auto
qed

lemma removed_blocks_kept:
  "concat (map (\<lambda>g. case g of Block blk \<Rightarrow> (if removable blk then [blk] else []) | _ \<Rightarrow> []) (filter kept gs)) = []"
proof (induction gs)
  case Nil
  then show ?case by simp
next
  case (Cons g gs)
  then show ?case by (cases g) auto
qed

lemma unclosed_kept: "\<not> list_ex is_unclosed (filter kept gs)"
proof (induction gs)
  case Nil
  then show ?case by simp
next
  case (Cons g gs)
  then show ?case by (cases g) auto
qed

lemma clean_init_outside: "\<not> in_timing_block clean_init"
  by (simp add: clean_init_def)

lemma clean_lines_segments: "clean_lines ls = concat (map emit (segments ls))"
  using clean_loop_outside [OF clean_init_outside, of ls]
  by (simp add: clean_lines_def clean_init_def)

lemma clean_lines_idem: "clean_lines (clean_lines ls) = clean_lines ls"
  by (simp add: clean_lines_segments segments_emit emit_kept)

lemma clean_rerun_count:
  "removed_blocks_count (clean_loop clean_init (clean_lines ls)) = 0
   \<and> removed_report (clean_loop clean_init (clean_lines ls)) = []
   \<and> \<not> in_timing_block (clean_loop clean_init (clean_lines ls))"
proof -
  have rb: "removed_blocks (clean_lines ls) = []"
    unfolding removed_blocks_def clean_lines_segments segments_emit by (rule removed_blocks_kept)
  have uc: "\<not> list_ex is_unclosed (segments (clean_lines ls))"
    unfolding clean_lines_segments segments_emit by (rule unclosed_kept)
  show ?thesis
    using clean_loop_outside [OF clean_init_outside, of "clean_lines ls"] rb uc
    by (simp add: clean_init_def)

qed

lemma clean_loop_open_tail:
  "\<not> in_timing_block s \<Longrightarrow> in_timing_block (clean_loop s ls) \<Longrightarrow>
   \<exists>pre. ls = pre @ current_timing_block_lines (clean_loop s ls)
     \<and> \<not> in_timing_block (clean_loop s pre)
     \<and> written (clean_loop s ls) = written (clean_loop s pre)
     \<and> removed_blocks_count (clean_loop s ls) = removed_blocks_count (clean_loop s pre)
     \<and> removed_report (clean_loop s ls) = removed_report (clean_loop s pre)
     \<and> block_start_line (clean_loop s ls) = line_number s + length pre + 1
     \<and> current_timing_block_lines (clean_loop s ls) \<noteq> []
     \<and> timing_start_match (hd (current_timing_block_lines (clean_loop s ls)))
     \<and> take_block 1 (tl (current_timing_block_lines (clean_loop s ls))) = None"
proof (induction ls arbitrary: s rule: segments.induct)
  case 1
  then show ?case by simp
next
  case (2 l rest)
  show ?case
  proof (cases "timing_start_match l")
    case False
    let ?s1 = "s\<lparr>line_number := line_number s + 1, written := written s @ [l]\<rparr>"
    have step: "clean_line s l = ?s1"
      using "2.prems"(1) False by (rule clean_line_outside)
    have out: "\<not> in_timing_block ?s1"
      using "2.prems"(1) by simp
    have fin: "in_timing_block (clean_loop ?s1 rest)"
      using "2.prems"(2) by (simp add: step)
    from "2.IH"(2) [OF False out fin] obtain pre where
      pre: "rest = pre @ current_timing_block_lines (clean_loop ?s1 rest)"
        "\<not> in_timing_block (clean_loop ?s1 pre)"
        "written (clean_loop ?s1 rest) = written (clean_loop ?s1 pre)"
        "removed_blocks_count (clean_loop ?s1 rest) = removed_blocks_count (clean_loop ?s1 pre)"
        "removed_report (clean_loop ?s1 rest) = removed_report (clean_loop ?s1 pre)"
        "block_start_line (clean_loop ?s1 rest) = line_number ?s1 + length pre + 1"
        "current_timing_block_lines (clean_loop ?s1 rest) \<noteq> []"
        "timing_start_match (hd (current_timing_block_lines (clean_loop ?s1 rest)))"
        "take_block 1 (tl (current_timing_block_lines (clean_loop ?s1 rest))) = None"
      by blast
    have run: "clean_loop s (l # rest) = clean_loop ?s1 rest" "clean_loop s (l # pre) = clean_loop ?s1 pre"
      by (simp_all add: step)
    have "l # rest = (l # pre) @ current_timing_block_lines (clean_loop s (l # rest))"
      using pre(1) by (simp add: step)
    moreover have "block_start_line (clean_loop s (l # rest)) = line_number s + length (l # pre) + 1"
      using pre(6) by (simp add: step)
    ultimately show ?thesis
      using pre(2-5,7-9) unfolding run [symmetric] by blast
  next
    case True
    let ?s1 = "s\<lparr>line_number := line_number s + 1, in_timing_block := True, brace_level := 1,
      block_start_line := line_number s + 1, current_timing_block_lines := [l],
      found_clk := False, found_setup_falling := False\<rparr>"
    have step: "clean_line s l = ?s1"
      using "2.prems"(1) True by (rule clean_line_enter)
    have inb: "in_timing_block ?s1" by simp
    show ?thesis
    proof (cases "take_block 1 rest")
      case None
      have fin: "clean_loop s (l # rest) = absorb ?s1 rest"
        using clean_loop_in_block [OF inb, of rest] None by (simp add: step)
      have "l # rest = [] @ current_timing_block_lines (clean_loop s (l # rest))"
        unfolding fin by (simp add: absorb_def)
      moreover have "\<not> in_timing_block (clean_loop s [])"
        using "2.prems"(1) by simp
      moreover have "written (clean_loop s (l # rest)) = written (clean_loop s [])"
        "removed_blocks_count (clean_loop s (l # rest)) = removed_blocks_count (clean_loop s [])"
        "removed_report (clean_loop s (l # rest)) = removed_report (clean_loop s [])"
        "block_start_line (clean_loop s (l # rest)) = line_number s + length ([] :: string list) + 1"
        "current_timing_block_lines (clean_loop s (l # rest)) \<noteq> []"
        "timing_start_match (hd (current_timing_block_lines (clean_loop s (l # rest))))"
        "take_block 1 (tl (current_timing_block_lines (clean_loop s (l # rest)))) = None"
        unfolding fin using True None by (simp_all add: absorb_def)
      ultimately show ?thesis by blast
    next
      case (Some p)
      obtain body rest' where p: "p = (body, rest')" by (cases p)
      have tb: "take_block 1 rest = Some (body, rest')" using Some p by simp
      have len: "length rest' < length (l # rest)"
        using take_block_split [OF tb] by auto
      have rest: "rest = body @ rest'"
        using take_block_split [OF tb] by simp
      let ?s2 = "end_block (absorb ?s1 body)"
      have run: "clean_loop s (l # rest) = clean_loop ?s2 rest'"
        using clean_loop_in_block [OF inb, of rest] tb by (simp add: step)
      have out: "\<not> in_timing_block ?s2"
        by (simp add: end_block_def Let_def)
      have l2: "line_number ?s2 = line_number s + 1 + length body"
        by (simp add: end_block_def Let_def absorb_def)
      have fin: "in_timing_block (clean_loop ?s2 rest')"
        using "2.prems"(2) unfolding run .
      from "2.IH"(1) [OF True tb [unfolded p [symmetric]] p [symmetric] len out fin] obtain pre where
        pre: "rest' = pre @ current_timing_block_lines (clean_loop ?s2 rest')"
          "\<not> in_timing_block (clean_loop ?s2 pre)"
          "written (clean_loop ?s2 rest') = written (clean_loop ?s2 pre)"
          "removed_blocks_count (clean_loop ?s2 rest') = removed_blocks_count (clean_loop ?s2 pre)"
          "removed_report (clean_loop ?s2 rest') = removed_report (clean_loop ?s2 pre)"
          "block_start_line (clean_loop ?s2 rest') = line_number ?s2 + length pre + 1"
          "current_timing_block_lines (clean_loop ?s2 rest') \<noteq> []"
          "timing_start_match (hd (current_timing_block_lines (clean_loop ?s2 rest')))"
          "take_block 1 (tl (current_timing_block_lines (clean_loop ?s2 rest'))) = None"
        by blast
      have runp: "clean_loop s (l # body @ pre) = clean_loop ?s2 pre"
        using clean_loop_in_block [OF inb, of "body @ pre"] take_block_append [OF tb, of pre]
        by (simp add: step)
      have "l # rest = (l # body @ pre) @ current_timing_block_lines (clean_loop s (l # rest))"
        unfolding run using pre(1) rest by simp
      moreover have "block_start_line (clean_loop s (l # rest)) = line_number s + length (l # body @ pre) + 1"
        unfolding run using pre(6) l2 by simp
      ultimately show ?thesis
        using pre(2-5,7-9) unfolding run runp [symmetric] by blast
    qed
  qed
qed

section \<open>Runs on the file system\<close>

lemma run_ops_Nil [simp]: "run_ops f [] = f"
  by (simp add: run_ops_def)

lemma run_ops_Cons [simp]: "run_ops f (x # xs) = run_ops (exec_op f x) xs"
  by (simp add: run_ops_def)

lemma run_ops_append: "run_ops f (xs @ ys) = run_ops (run_ops f xs) ys"
  by (simp add: run_ops_def)

lemma exec_op_other: "q \<notin> set (op_paths x) \<Longrightarrow> exec_op f x q = f q"
  by (cases x) auto

lemma run_ops_other: "q \<notin> set (concat (map op_paths ops)) \<Longrightarrow> run_ops f ops q = f q"
  by (induction ops arbitrary: f) (auto simp: exec_op_other)

lemma run_ops_writes:
  "f p = Some old \<Longrightarrow> run_ops f (map (Write p) ws) = f(p \<mapsto> old @ concat ws)"
proof (induction ws arbitrary: f old)
  case Nil
  then show ?case by (simp add: fun_upd_idem)
next
  case (Cons w ws)
  have e: "exec_op f (Write p w) = f(p \<mapsto> old @ w)"
    using Cons.prems by (auto simp: fun_eq_iff)
  have "(f(p \<mapsto> old @ w)) p = Some (old @ w)" by simp
  from Cons.IH [of "f(p \<mapsto> old @ w)" "old @ w", OF this]
  have ih: "run_ops (f(p \<mapsto> old @ w)) (map (Write p) ws) = (f(p \<mapsto> old @ w))(p \<mapsto> (old @ w) @ concat ws)" .
  have "run_ops f (map (Write p) (w # ws)) = run_ops (f(p \<mapsto> old @ w)) (map (Write p) ws)"
    by (simp only: list.map run_ops_Cons e)
  also note ih
  also have "(f(p \<mapsto> old @ w))(p \<mapsto> (old @ w) @ concat ws) = f(p \<mapsto> old @ concat (w # ws))"
    by simp
  finally show ?case .
qed

lemma take_append_short: "n \<le> length xs \<Longrightarrow> take n (xs @ ys) = take n xs"
  by simp

lemma paths_take_subset: "set (concat (map g (take n xs))) \<subseteq> set (concat (map g xs))"
  by (auto dest: in_set_takeD)

lemma temp_filename_differs: "temp_filename filename \<noteq> filename"
proof
  assume "temp_filename filename = filename"
  then have "length (temp_filename filename) = length filename" by simp
  then show False by (simp add: temp_filename_def)
qed

lemma clean_lib_file_result:
  assumes "f filename = Some txt"
  shows "clean_lib_file f filename =
     (f(filename \<mapsto> concat (clean_lines (readlines txt))))(temp_filename filename := None)"
proof -
  let ?t = "temp_filename filename"
  let ?ws = "clean_lines (readlines txt)"
  have t: "(f(?t \<mapsto> [])) ?t = Some []" by simp
  have "clean_lib_file f filename = exec_op (run_ops (f(?t \<mapsto> [])) (map (Write ?t) ?ws)) (Move ?t filename)"
    using assms by (simp add: clean_lib_file_def clean_lib_file_ops_def run_ops_append)
  also have "\<dots> = exec_op ((f(?t \<mapsto> []))(?t \<mapsto> concat ?ws)) (Move ?t filename)"
    using run_ops_writes [of "f(?t \<mapsto> [])" "?t" "[]" "?ws", OF t] by simp
  also have "\<dots> = (f(filename \<mapsto> concat ?ws))(?t := None)"
    using temp_filename_differs [of filename] by (auto simp: fun_eq_iff)
  finally show ?thesis .
qed

lemma clean_ops_prefix_paths:
  "n < length (clean_lib_file_ops f filename) \<Longrightarrow>
   set (concat (map op_paths (take n (clean_lib_file_ops f filename)))) \<subseteq> {temp_filename filename}"
proof (cases "f filename")
  case None
  then show ?thesis by (simp add: clean_lib_file_ops_def)
next
  case (Some body)
  assume n: "n < length (clean_lib_file_ops f filename)"
  let ?t = "temp_filename filename"
  let ?body = "Truncate ?t # map (Write ?t) (clean_lines (readlines body))"
  have ops: "clean_lib_file_ops f filename = ?body @ [Move ?t filename]"
    using Some by (simp add: clean_lib_file_ops_def)
  have "n \<le> length ?body"
    using n unfolding ops by simp
  then have a: "take n (clean_lib_file_ops f filename) = take n ?body"
    unfolding ops by (rule take_append_short)
  have b: "set (concat (map op_paths (take n ?body))) \<subseteq> set (concat (map op_paths ?body))"
    by (rule paths_take_subset)
  have c: "set (concat (map op_paths ?body)) \<subseteq> {?t}"
    by auto
  from b c have "set (concat (map op_paths (take n ?body))) \<subseteq> {?t}"
    by (rule order_trans)
  then show ?thesis unfolding a .
qed

lemma clean_ops_butlast_paths:
  "set (concat (map op_paths (take n (butlast (clean_lib_file_ops f filename))))) \<subseteq> {temp_filename filename}"
proof (cases "f filename")
  case None
  then show ?thesis by (simp add: clean_lib_file_ops_def)
next
  case (Some body)
  let ?t = "temp_filename filename"
  let ?body = "Truncate ?t # map (Write ?t) (clean_lines (readlines body))"
  have ops: "butlast (clean_lib_file_ops f filename) = ?body"
    using Some by (simp add: clean_lib_file_ops_def butlast_append)
  have b: "set (concat (map op_paths (take n ?body))) \<subseteq> set (concat (map op_paths ?body))"
    by (rule paths_take_subset)
  have c: "set (concat (map op_paths ?body)) \<subseteq> {?t}"
    by auto
  from b c have "set (concat (map op_paths (take n ?body))) \<subseteq> {?t}"
    by (rule order_trans)
  then show ?thesis unfolding ops .
qed

text \<open>
  Claim C9. When the input of \<open>clean_lib_file\<close> ends inside an open timing block, the
  input is a prefix followed by the buffered lines, which start at the header of that
  block and never bring the brace level back to zero. The output is the output for the
  prefix alone, the removed-blocks total and the messages are those of the prefix, and
  the run ends with the move: the original file holds the shortened output and the
  temporary file is gone.
\<close>

theorem clean_lib_file_open_block_dropped:
  assumes "f filename = Some content"
    and "in_timing_block (clean_loop clean_init (readlines content))"
  shows "\<exists>pre blk. readlines content = pre @ blk
     \<and> blk \<noteq> [] \<and> timing_start_match (hd blk) \<and> take_block 1 (tl blk) = None
     \<and> \<not> in_timing_block (clean_loop clean_init pre)
     \<and> clean_lines (readlines content) = clean_lines pre
     \<and> removed_blocks_count (clean_loop clean_init (readlines content))
         = removed_blocks_count (clean_loop clean_init pre)
     \<and> removed_report (clean_loop clean_init (readlines content))
         = removed_report (clean_loop clean_init pre)
     \<and> clean_lib_file f filename filename = Some (concat (clean_lines pre))
     \<and> clean_lib_file f filename (temp_filename filename) = None"
proof -
  let ?fin = "clean_loop clean_init (readlines content)"
  from clean_loop_open_tail [OF clean_init_outside assms(2)]
  obtain pre where pre: "readlines content = pre @ current_timing_block_lines ?fin"
    and a: "\<not> in_timing_block (clean_loop clean_init pre)"
    and w: "written ?fin = written (clean_loop clean_init pre)"
    and c: "removed_blocks_count ?fin = removed_blocks_count (clean_loop clean_init pre)"
    and r: "removed_report ?fin = removed_report (clean_loop clean_init pre)"
    and n: "current_timing_block_lines ?fin \<noteq> []"
    and h: "timing_start_match (hd (current_timing_block_lines ?fin))"
    and t: "take_block 1 (tl (current_timing_block_lines ?fin)) = None"
    by blast
  have cl: "clean_lines (readlines content) = clean_lines pre"
    using w by (simp add: clean_lines_def)
  have f1: "clean_lib_file f filename filename = Some (concat (clean_lines pre))"
    unfolding clean_lib_file_result [of f filename content, OF assms(1)] cl
    using temp_filename_differs [of filename] by simp
  have f2: "clean_lib_file f filename (temp_filename filename) = None"
    unfolding clean_lib_file_result [of f filename content, OF assms(1)] by simp
  from pre n h t a cl c r f1 f2 show ?thesis by blast
qed

theorem clean_lib_file_open_block_dropped_witness:
  "one_file ''a.lib'' open_block_example ''a.lib'' = Some open_block_example
   \<and> in_timing_block (clean_loop clean_init (readlines open_block_example))
   \<and> (\<exists>pre blk. readlines open_block_example = pre @ blk
     \<and> blk \<noteq> [] \<and> timing_start_match (hd blk) \<and> take_block 1 (tl blk) = None
     \<and> \<not> in_timing_block (clean_loop clean_init pre)
     \<and> clean_lines (readlines open_block_example) = clean_lines pre
     \<and> removed_blocks_count (clean_loop clean_init (readlines open_block_example))
         = removed_blocks_count (clean_loop clean_init pre)
     \<and> removed_report (clean_loop clean_init (readlines open_block_example))
         = removed_report (clean_loop clean_init pre)
     \<and> clean_lib_file (one_file ''a.lib'' open_block_example) ''a.lib'' ''a.lib'' = Some (concat (clean_lines pre))
     \<and> clean_lib_file (one_file ''a.lib'' open_block_example) ''a.lib'' (temp_filename ''a.lib'') = None)"
proof -
  have a: "one_file ''a.lib'' open_block_example ''a.lib'' = Some open_block_example"
    by (simp add: one_file_def)
  have b: "in_timing_block (clean_loop clean_init (readlines open_block_example))"
    by code_simp
  from a b clean_lib_file_open_block_dropped [of "one_file ''a.lib'' open_block_example" "''a.lib''" open_block_example, OF a b] show ?thesis
    by (intro conjI)
qed

section \<open>Claims on the file handling\<close>

text \<open>
  Claim C5, as the code has it. Only \<open>clean_lib_file\<close> writes through a temporary file.
  For it: after any number of actions short of the whole run the original file is as
  before; a run that raises before the move removes the temporary file and leaves the
  original as before; the whole run puts the rewritten text in place of the original.
  \<open>process_lib_file\<close> and \<open>update_lib_file\<close> open their target for writing directly:
  with the input as target, the file is empty once the first action is done.
\<close>

theorem clean_lib_file_original_intact:
  "(n < length (clean_lib_file_ops f filename) \<longrightarrow>
      run_ops f (take n (clean_lib_file_ops f filename)) filename = f filename)
   \<and> clean_lib_file_failing f filename n filename = f filename
   \<and> clean_lib_file_failing f filename n (temp_filename filename) = None
   \<and> (f filename = Some content \<longrightarrow>
        clean_lib_file f filename filename = Some (concat (clean_lines (readlines content))))
   \<and> (f filename = Some content \<longrightarrow>
        run_ops f (take 1 (process_lib_file_ops f filename filename)) filename = Some [])
   \<and> (f filename = Some content \<and> snd (area_subn (formatted_area area) (read_text content)) \<noteq> 0 \<longrightarrow>
        run_ops f (take 1 (update_lib_file_ops f filename area)) filename = Some [])"
proof -
  have d: "filename \<noteq> temp_filename filename"
    using temp_filename_differs [of filename] by simp
  have p1: "n < length (clean_lib_file_ops f filename) \<longrightarrow>
      run_ops f (take n (clean_lib_file_ops f filename)) filename = f filename"
  proof
    assume "n < length (clean_lib_file_ops f filename)"
    from clean_ops_prefix_paths [OF this] d
    have "filename \<notin> set (concat (map op_paths (take n (clean_lib_file_ops f filename))))"
      by blast
    then show "run_ops f (take n (clean_lib_file_ops f filename)) filename = f filename"
      by (rule run_ops_other)
  qed
  have "filename \<notin> set (concat (map op_paths (take n (butlast (clean_lib_file_ops f filename)))))"
    using clean_ops_butlast_paths [of n f filename] d by blast
  then have "run_ops f (take n (butlast (clean_lib_file_ops f filename))) filename = f filename"
    by (rule run_ops_other)
  then have p2: "clean_lib_file_failing f filename n filename = f filename"
    using d by (simp add: clean_lib_file_failing_def)
  have p3: "clean_lib_file_failing f filename n (temp_filename filename) = None"
    by (simp add: clean_lib_file_failing_def)
  have p4: "f filename = Some content \<longrightarrow>
        clean_lib_file f filename filename = Some (concat (clean_lines (readlines content)))"
    using d by (auto simp: clean_lib_file_result)
  have p5: "f filename = Some content \<longrightarrow>
        run_ops f (take 1 (process_lib_file_ops f filename filename)) filename = Some []"
    by (simp add: process_lib_file_ops_def)
  have p6: "f filename = Some content \<and> snd (area_subn (formatted_area area) (read_text content)) \<noteq> 0 \<longrightarrow>
        run_ops f (take 1 (update_lib_file_ops f filename area)) filename = Some []"
    by (auto simp: update_lib_file_ops_def split: prod.splits)
  from p1 p2 p3 p4 p5 p6 show ?thesis by blast
qed

theorem clean_lib_file_original_intact_witness:
  "(1::nat) < length (clean_lib_file_ops (one_file ''a.lib'' area_file_example) ''a.lib'')
   \<and> one_file ''a.lib'' area_file_example ''a.lib'' = Some area_file_example
   \<and> snd (area_subn (formatted_area (Decimal 125 (- 1))) (read_text area_file_example)) \<noteq> 0
   \<and> run_ops (one_file ''a.lib'' area_file_example)
        (take 1 (clean_lib_file_ops (one_file ''a.lib'' area_file_example) ''a.lib'')) ''a.lib''
       = Some area_file_example
   \<and> clean_lib_file_failing (one_file ''a.lib'' area_file_example) ''a.lib'' 1 ''a.lib'' = Some area_file_example
   \<and> clean_lib_file (one_file ''a.lib'' area_file_example) ''a.lib'' ''a.lib''
       = Some (concat (clean_lines (readlines area_file_example)))
   \<and> run_ops (one_file ''a.lib'' area_file_example)
        (take 1 (process_lib_file_ops (one_file ''a.lib'' area_file_example) ''a.lib'' ''a.lib'')) ''a.lib''
       = Some []
   \<and> run_ops (one_file ''a.lib'' area_file_example)
        (take 1 (update_lib_file_ops (one_file ''a.lib'' area_file_example) ''a.lib'' (Decimal 125 (- 1)))) ''a.lib''
       = Some []"
proof -
  have a: "(1::nat) < length (clean_lib_file_ops (one_file ''a.lib'' area_file_example) ''a.lib'')"
    by (simp add: clean_lib_file_ops_def one_file_def)
  have b: "one_file ''a.lib'' area_file_example ''a.lib'' = Some area_file_example"
    by (simp add: one_file_def)
  have c: "snd (area_subn (formatted_area (Decimal 125 (- 1))) (read_text area_file_example)) \<noteq> 0"
    by code_simp
  from a b c
    clean_lib_file_original_intact [of 1 "one_file ''a.lib'' area_file_example" "''a.lib''"
      area_file_example "Decimal 125 (- 1)"]
  show ?thesis by simp
qed

text \<open>
  A run of \<open>process_lib_file\<close> on \<open>a.lib\<close> in place that stops after its first action,
  the opening of the output: the file, which held a line, is empty.
\<close>

theorem process_lib_file_truncates_in_place:
  "run_ops (one_file ''a.lib'' area_file_example)
     (take 1 (process_lib_file_ops (one_file ''a.lib'' area_file_example) ''a.lib'' ''a.lib'')) ''a.lib''
   \<noteq> one_file ''a.lib'' area_file_example ''a.lib''"
  by (simp add: process_lib_file_ops_def one_file_def area_file_example_def)

section \<open>The first pass of fix\_asap7\_macros.py\<close>

lemma scan_lines_snoc:
  "scan_lines s i (xs @ [x]) = scan_line (scan_lines s i xs) (i + length xs) x"
  by (induction xs arbitrary: s i) simp_all

lemma depth_snoc: "depth (ls @ [x]) = depth ls + brace_delta x"
  by (simp add: depth_def)

lemma depth_take_snoc: "n \<le> length ls \<Longrightarrow> depth (take n (ls @ [x])) = depth (take n ls)"
  by simp

lemma nth_snoc_old: "n < length ls \<Longrightarrow> (ls @ [x]) ! n = ls ! n"
  by (simp add: nth_append)

lemma closed_span_snoc: "closed_span ls a b \<Longrightarrow> closed_span (ls @ [x]) a b"
  unfolding closed_span_def list_all_iff list_ex_iff
  by (auto simp: nth_append)

lemma ascending_snoc:
  "ascending m rs \<Longrightarrow> list_all (\<lambda>(a, b). b < l) rs \<Longrightarrow> m < l \<Longrightarrow> l \<le> n \<Longrightarrow>
   ascending m (rs @ [(l, n)])"
  by (induction m rs rule: ascending.induct) auto

lemma closed_spans_bound:
  "list_all (\<lambda>(a, b). closed_span ls a b) rs \<Longrightarrow> list_all (\<lambda>(a, b). b < Suc (length ls)) rs"
  unfolding list_all_iff closed_span_def by auto

lemma closed_spans_snoc:
  "list_all (\<lambda>(a, b). closed_span ls a b) rs \<Longrightarrow> list_all (\<lambda>(a, b). closed_span (ls @ [x]) a b) rs"
  unfolding list_all_iff using closed_span_snoc by auto

lemma open_span_snoc:
  "open_span ls l d \<Longrightarrow> d < depth ls + brace_delta x \<Longrightarrow> open_span (ls @ [x]) l d"
  unfolding open_span_def list_all_iff
  by (auto simp: nth_append depth_snoc less_Suc_eq)

lemma names_output_ex_snoc:
  assumes "1 \<le> l" "l \<le> length ls"
    and "list_ex (\<lambda>n. names_output (ls ! (n - 1))) [l..<Suc (length ls)] \<or> names_output x"
  shows "list_ex (\<lambda>n. names_output ((ls @ [x]) ! (n - 1))) [l..<Suc (Suc (length ls))]"
  using assms(3)
proof
  assume "list_ex (\<lambda>n. names_output (ls ! (n - 1))) [l..<Suc (length ls)]"
  then obtain n where n: "l \<le> n" "n < Suc (length ls)" "names_output (ls ! (n - 1))"
    unfolding list_ex_iff by auto
  from n assms(1) have "n - 1 < length ls" by arith
  then have "(ls @ [x]) ! (n - 1) = ls ! (n - 1)"
    by (simp add: nth_append)
  with n have "names_output ((ls @ [x]) ! (n - 1))" by simp
  moreover from n have "n \<in> set [l..<Suc (Suc (length ls))]" by auto
  ultimately show ?thesis unfolding list_ex_iff by blast
next
  assume "names_output x"
  then have "names_output ((ls @ [x]) ! (Suc (length ls) - 1))" by simp
  moreover from assms(2) have "Suc (length ls) \<in> set [l..<Suc (Suc (length ls))]" by simp
  ultimately show ?thesis unfolding list_ex_iff by blast
qed

lemma open_span_close:
  assumes "open_span ls l d" "depth ls + brace_delta x \<le> d"
    and "list_ex (\<lambda>n. names_output (ls ! (n - 1))) [l..<Suc (length ls)] \<or> names_output x"
  shows "closed_span (ls @ [x]) l (Suc (length ls))"
proof -
  from assms(1) have l: "1 \<le> l" "l \<le> length ls" and h: "is_pin_header (ls ! (l - 1))"
    and d: "d = depth (take (l - 1) ls)"
    and a: "\<forall>n \<in> set [l..<Suc (length ls)]. d < depth (take n ls)"
    unfolding open_span_def list_all_iff by auto
  have e: "list_ex (\<lambda>n. names_output ((ls @ [x]) ! (n - 1))) [l..<Suc (Suc (length ls))]"
    using l assms(3) by (rule names_output_ex_snoc)
  from l have "l - 1 < length ls" by arith
  then have "(ls @ [x]) ! (l - 1) = ls ! (l - 1)"
    by (simp add: nth_append)
  with h have h': "is_pin_header ((ls @ [x]) ! (l - 1))"
    by simp
  have t: "take (l - 1) (ls @ [x]) = take (l - 1) ls"
    using l by simp
  have c: "depth (take (Suc (length ls)) (ls @ [x])) \<le> depth (take (l - 1) (ls @ [x]))"
    unfolding t using assms(2) d by (simp add: depth_snoc)
  have a': "list_all (\<lambda>n. depth (take (l - 1) (ls @ [x])) < depth (take n (ls @ [x]))) [l..<Suc (length ls)]"
    unfolding t list_all_iff using a d by auto
  from l h' c a' e show ?thesis
    unfolding closed_span_def by simp
qed

lemma open_span_new:
  "is_pin_header x \<Longrightarrow> 0 < brace_delta x \<Longrightarrow> open_span (ls @ [x]) (Suc (length ls)) (depth ls)"
  unfolding open_span_def list_all_iff
  by (auto simp: nth_append depth_snoc)

lemma closed_span_new:
  "is_pin_header x \<Longrightarrow> brace_delta x \<le> 0 \<Longrightarrow> names_output x \<Longrightarrow>
   closed_span (ls @ [x]) (Suc (length ls)) (Suc (length ls))"
  unfolding closed_span_def list_all_iff list_ex_iff
  by (auto simp: nth_append depth_snoc)

lemma scan_line_outside:
  "\<not> in_pin_block s \<Longrightarrow> \<not> is_pin_header x \<Longrightarrow>
   scan_line s i x = s\<lparr>brace_depth := brace_depth s + brace_delta x\<rparr>"
  by (simp add: scan_line_def Let_def)

lemma scan_line_enter:
  "\<not> in_pin_block s \<Longrightarrow> is_pin_header x \<Longrightarrow>
   scan_line s i x =
     (if brace_delta x \<le> 0
      then s\<lparr>brace_depth := brace_depth s + brace_delta x,
             ranges := (if names_output x then ranges s @ [(i + 1, i + 1)] else ranges s),
             in_pin_block := False, is_output_pin := False, block_start_info := None\<rparr>
      else s\<lparr>brace_depth := brace_depth s + brace_delta x, in_pin_block := True,
             is_output_pin := names_output x, block_start_info := Some (i + 1, brace_depth s)\<rparr>)"
  by (auto simp: scan_line_def Let_def start_depth_def close_block_def intro!: scan_state.equality)

lemma scan_line_inside:
  "in_pin_block s \<Longrightarrow> block_start_info s = Some (l, d) \<Longrightarrow>
   scan_line s i x =
     (if brace_depth s + brace_delta x \<le> d
      then s\<lparr>brace_depth := brace_depth s + brace_delta x,
             ranges := (if is_output_pin s \<or> names_output x then ranges s @ [(l, i + 1)] else ranges s),
             in_pin_block := False, is_output_pin := False, block_start_info := None\<rparr>
      else s\<lparr>brace_depth := brace_depth s + brace_delta x,
             is_output_pin := (is_output_pin s \<or> names_output x)\<rparr>)"
  by (auto simp: scan_line_def Let_def start_depth_def close_block_def intro!: scan_state.equality)

lemma scan_inv_step:
  assumes inv: "scan_inv ls s"
  shows "scan_inv (ls @ [x]) (scan_line s (length ls) x)"
proof -
  from inv have dep: "brace_depth s = depth ls" and asc: "ascending 0 (ranges s)"
    and cl: "list_all (\<lambda>(a, b). closed_span ls a b) (ranges s)"
    unfolding scan_inv_def by auto
  note cl' = closed_spans_snoc [OF cl, of x]
  note bd = closed_spans_bound [OF cl]
  show ?thesis
  proof (cases "in_pin_block s")
    case False
    show ?thesis
    proof (cases "is_pin_header x")
      case False
      with \<open>\<not> in_pin_block s\<close> show ?thesis
        using dep asc cl' by (simp add: scan_line_outside scan_inv_def depth_snoc)
    next
      case True
      show ?thesis
      proof (cases "brace_delta x \<le> 0")
        case le: True
        show ?thesis
        proof (cases "names_output x")
          case no: False
          show ?thesis
            using \<open>\<not> in_pin_block s\<close> True le no dep asc cl'
            by (simp add: scan_line_enter scan_inv_def depth_snoc)
        next
          case yes: True
          have a2: "ascending 0 (ranges s @ [(Suc (length ls), Suc (length ls))])"
            using asc bd by (rule ascending_snoc) simp_all
          have c2: "closed_span (ls @ [x]) (Suc (length ls)) (Suc (length ls))"
            using True le yes by (rule closed_span_new)
          show ?thesis
            using \<open>\<not> in_pin_block s\<close> True le yes dep a2 c2 cl'
            by (simp add: scan_line_enter scan_inv_def depth_snoc)
        qed
      next
        case gt: False
        then have "0 < brace_delta x" by simp
        with True have o: "open_span (ls @ [x]) (Suc (length ls)) (depth ls)"
          by (rule open_span_new)
        have e: "names_output x \<Longrightarrow>
            list_ex (\<lambda>n. names_output ((ls @ [x]) ! (n - 1))) [Suc (length ls)..<Suc (Suc (length ls))]"
          by simp
        show ?thesis
          using \<open>\<not> in_pin_block s\<close> True gt dep asc cl' o bd e
          by (simp add: scan_line_enter scan_inv_def depth_snoc)
      qed
    qed
  next
    case True
    with inv obtain l d where info: "block_start_info s = Some (l, d)"
      and o: "open_span ls l d" and b: "list_all (\<lambda>(a, b). b < l) (ranges s)"
      and out: "is_output_pin s \<longrightarrow> list_ex (\<lambda>n. names_output (ls ! (n - 1))) [l..<Suc (length ls)]"
      unfolding scan_inv_def by (auto split: option.splits)
    from o have l: "1 \<le> l" "l \<le> length ls" unfolding open_span_def by auto
    show ?thesis
    proof (cases "brace_depth s + brace_delta x \<le> d")
      case le: True
      show ?thesis
      proof (cases "is_output_pin s \<or> names_output x")
        case no: False
        show ?thesis
          using le no dep asc cl'
          by (simp add: scan_line_inside [OF True info] scan_inv_def depth_snoc)
      next
        case yes: True
        with out have "list_ex (\<lambda>n. names_output (ls ! (n - 1))) [l..<Suc (length ls)] \<or> names_output x"
          by blast
        with o le [unfolded dep] have c2: "closed_span (ls @ [x]) l (Suc (length ls))"
          by (rule open_span_close)
        have a2: "ascending 0 (ranges s @ [(l, Suc (length ls))])"
          using asc b by (rule ascending_snoc) (use l in simp_all)
        show ?thesis
          using le yes dep a2 c2 cl'
          by (simp add: scan_line_inside [OF True info] scan_inv_def depth_snoc)
      qed
    next
      case gt: False
      then have "d < depth ls + brace_delta x" using dep by simp
      with o have o2: "open_span (ls @ [x]) l d" by (rule open_span_snoc)
      have e: "is_output_pin s \<or> names_output x \<Longrightarrow>
          list_ex (\<lambda>n. names_output ((ls @ [x]) ! (n - 1))) [l..<Suc (Suc (length ls))]"
        using names_output_ex_snoc [OF l, of x] out by blast
      show ?thesis
        using gt True info dep asc cl' o2 b e
        by (simp add: scan_line_inside [OF True info] scan_inv_def depth_snoc)
    qed
  qed
qed

lemma scan_inv_init: "scan_inv [] scan_init"
  by (simp add: scan_inv_def scan_init_def depth_def)

lemma scan_inv_lines: "scan_inv ls (scan_lines scan_init 0 ls)"
proof (induction ls rule: rev_induct)
  case Nil
  show ?case by (simp add: scan_inv_init)
next
  case (snoc x xs)
  from scan_inv_step [OF snoc, of x] show ?case
    by (simp add: scan_lines_snoc)
qed

section \<open>The second pass of fix\_asap7\_macros.py\<close>

lemma in_range_Nil [simp]: "in_range [] n = False"
  by (simp add: in_range_def)

lemma in_range_Cons [simp]: "in_range ((a, b) # rs) n = (a \<le> n \<and> n \<le> b \<or> in_range rs n)"
  by (simp add: in_range_def)

lemma ascending_not_in: "ascending m rs \<Longrightarrow> n \<le> m \<Longrightarrow> \<not> in_range rs n"
  by (induction m rs rule: ascending.induct) auto

lemma select_lines_cong:
  "(\<And>n. i < n \<Longrightarrow> in_range rs1 n = in_range rs2 n) \<Longrightarrow>
   select_lines rs1 sv i ls = select_lines rs2 sv i ls"
proof (induction ls arbitrary: sv i)
  case Nil
  show ?case by simp
next
  case (Cons x ls)
  have a: "in_range rs1 (Suc i) = in_range rs2 (Suc i)"
    by (rule Cons.prems) simp
  have b: "\<And>sv'. select_lines rs1 sv' (Suc i) ls = select_lines rs2 sv' (Suc i) ls"
    by (rule Cons.IH) (simp add: Cons.prems)
  show ?case by (simp add: a b)
qed

lemma length_select_lines [simp]: "length (select_lines rs sv i ls) = length ls"
  by (induction ls arbitrary: sv i) simp_all

lemma rewrite_line_past:
  "\<not> current_range_index s < length rs \<Longrightarrow> \<not> is_in_output_range s \<Longrightarrow>
   rewrite_line rs s i x = s\<lparr>modified_lines := modified_lines s @ [x]\<rparr>"
  by (simp add: rewrite_line_def Let_def)

lemma rewrite_line_fields:
  assumes "current_range_index s < length rs" "rs ! current_range_index s = (a, b)"
    and "is_in_output_range s \<longrightarrow> a \<le> i"
  shows "modified_lines (rewrite_line rs s i x) = modified_lines s @
           [if a \<le> i + 1 \<and> (is_scaling_values s \<or> opens_values x \<or> is_index_line x)
            then scale_numbers_in_line x else x]"
    and "is_scaling_values (rewrite_line rs s i x) =
           (if a \<le> i + 1 then (is_scaling_values s \<or> opens_values x) \<and> \<not> closes_values x
            else is_scaling_values s)"
    and "current_range_index (rewrite_line rs s i x) =
           (if b \<le> i + 1 then current_range_index s + 1 else current_range_index s)"
    and "is_in_output_range (rewrite_line rs s i x) = (\<not> b \<le> i + 1 \<and> a \<le> i + 1)"
  using assms by (auto simp: rewrite_line_def Let_def)

lemma rewrite_lines_select:
  "rewrite_inv rs s i \<Longrightarrow>
   modified_lines (rewrite_lines rs s i ls) =
     modified_lines s @ select_lines (drop (current_range_index s) rs) (is_scaling_values s) i ls"
proof (induction ls arbitrary: s i)
  case Nil
  show ?case by simp
next
  case (Cons x ls)
  let ?idx = "current_range_index s"
  let ?s' = "rewrite_line rs s i x"
  show ?case
  proof (cases "drop ?idx rs")
    case Nil
    then have past: "\<not> ?idx < length rs" by simp
    from Cons.prems Nil have flag: "\<not> is_in_output_range s"
      by (simp add: rewrite_inv_def)
    have step: "?s' = s\<lparr>modified_lines := modified_lines s @ [x]\<rparr>"
      using past flag by (rule rewrite_line_past)
    have "rewrite_inv rs ?s' (i + 1)"
      unfolding step using Nil flag by (simp add: rewrite_inv_def)
    from Cons.IH [OF this] show ?thesis
      using Nil by (simp add: step)
  next
    case (Cons p rem)
    obtain a b where p: "p = (a, b)" by (cases p)
    from Cons have lt: "?idx < length rs"
      by (cases "?idx < length rs") simp_all
    have nth: "rs ! ?idx = (a, b)"
      using Cons p lt by (simp add: hd_drop_conv_nth [symmetric])
    have "drop (Suc ?idx) rs = tl (drop ?idx rs)"
      by (simp add: drop_Suc tl_drop)
    then have rest: "drop (Suc ?idx) rs = rem"
      unfolding Cons by simp
    from Cons.prems Cons p have ab: "a \<le> b" and ib: "i < b" and asc: "ascending b rem"
      and fl: "is_in_output_range s \<longrightarrow> a \<le> i"
      by (simp_all add: rewrite_inv_def)
    note f = rewrite_line_fields [OF lt nth fl, of x]
    have nin: "\<not> in_range rem (i + 1)"
      using asc by (rule ascending_not_in) (use ib in simp)
    show ?thesis
    proof (cases "b \<le> i + 1")
      case True
      have inv': "rewrite_inv rs ?s' (i + 1)"
      proof (cases rem)
        case Nil
        then show ?thesis using True rest by (simp add: rewrite_inv_def f)
      next
        case (Cons q rem')
        obtain a' b' where q: "q = (a', b')" by (cases q)
        from asc Cons q have "b < a'" "a' \<le> b'" "ascending b' rem'" by simp_all
        then show ?thesis using True ib rest Cons q by (simp add: rewrite_inv_def f)
      qed
      have cong: "select_lines ((a, b) # rem) sv (i + 1) ls = select_lines rem sv (i + 1) ls" for sv
        by (rule select_lines_cong) (use True in auto)
      from True ab have sel: "a \<le> i + 1" by simp
      from Cons.IH [OF inv'] show ?thesis
        using True sel ib nin cong unfolding \<open>drop ?idx rs = p # rem\<close> p
        by (simp add: f rest)
    next
      case False
      have inv': "rewrite_inv rs ?s' (i + 1)"
        using False ab asc \<open>drop ?idx rs = p # rem\<close> p by (simp add: rewrite_inv_def f)
      from Cons.IH [OF inv'] show ?thesis
        using False ib nin unfolding \<open>drop ?idx rs = p # rem\<close> p
        by (simp add: f \<open>drop ?idx rs = p # rem\<close> p)
    qed
  qed
qed

lemma rewrite_inv_init: "ascending 0 rs \<Longrightarrow> rewrite_inv rs rewrite_init 0"
  by (cases rs) (auto simp: rewrite_inv_def rewrite_init_def)

lemma select_lines_positional:
  "i \<le> length ls \<Longrightarrow>
   select_lines rs (values_pending rs ls i) i (drop i ls) = map (rewritten_line rs ls) [i..<length ls]"
proof (induction "length ls - i" arbitrary: i)
  case 0
  then show ?case by simp
next
  case (Suc k)
  then have lt: "i < length ls" by simp
  have d: "drop i ls = ls ! i # drop (Suc i) ls"
    using lt by (simp add: Cons_nth_drop_Suc)
  have u: "[i..<length ls] = i # [Suc i..<length ls]"
    using lt by (simp add: upt_conv_Cons)
  have k: "k = length ls - Suc i" using Suc.hyps(2) by simp
  have le: "Suc i \<le> length ls" using lt by simp
  note ih = Suc.hyps(1) [OF k le]
  show ?case
  proof (cases "in_range rs (Suc i)")
    case True
    have p: "values_pending rs ls (Suc i)
        = ((values_pending rs ls i \<or> opens_values (ls ! i)) \<and> \<not> closes_values (ls ! i))"
      using True by simp
    show ?thesis
      unfolding d u using True ih p by (simp add: rewritten_line_def)
  next
    case False
    have p: "values_pending rs ls (Suc i) = values_pending rs ls i"
      using False by simp
    show ?thesis
      unfolding d u using False ih p by (simp add: rewritten_line_def)
  qed
qed

lemma ranges_ascending: "ascending 0 (find_output_pin_line_ranges ls)"
  using scan_inv_lines [of ls] by (simp add: scan_inv_def find_output_pin_line_ranges_def)

lemma ranges_closed:
  "list_all (\<lambda>(a, b). closed_span ls a b) (find_output_pin_line_ranges ls)"
  using scan_inv_lines [of ls] by (simp add: scan_inv_def find_output_pin_line_ranges_def)

lemma process_lines_positional:
  "process_lines ls = map (rewritten_line (find_output_pin_line_ranges ls) ls) [0..<length ls]"
proof -
  let ?rs = "find_output_pin_line_ranges ls"
  have "rewrite_inv ?rs rewrite_init 0"
    using ranges_ascending by (rule rewrite_inv_init)
  from rewrite_lines_select [OF this, of ls]
  have "process_lines ls = select_lines ?rs False 0 ls"
    by (simp add: process_lines_def rewrite_init_def)
  also have "\<dots> = map (rewritten_line ?rs ls) [0..<length ls]"
    using select_lines_positional [of 0 ls ?rs] by simp
  finally show ?thesis .
qed



section \<open>The blocks of the specification and the blocks of the loop\<close>

lemma depth_Nil [simp]: "depth [] = 0"
  by (simp add: depth_def)

lemma depth_Cons [simp]: "depth (l # ls) = brace_delta l + depth ls"
  by (simp add: depth_def)





lemma take_block_header:
  "brace_delta l = 1 \<Longrightarrow>
   take_block 0 (l # rest) =
     (case take_block 1 rest of None \<Rightarrow> None | Some (body, rest') \<Rightarrow> Some (l # body, rest'))"
  by simp







section \<open>Claims on remove\_setup\_falling.py\<close>




section \<open>Line counts\<close>

lemma process_lib_file_result:
  assumes "f input_path = Some content"
  shows "process_lib_file f input_path output_path
     = f(output_path \<mapsto> concat (process_lines (readlines content)))"
proof -
  let ?ws = "process_lines (readlines content)"
  have t: "(f(output_path \<mapsto> [])) output_path = Some []" by simp
  have "process_lib_file f input_path output_path
      = run_ops (f(output_path \<mapsto> [])) (map (Write output_path) ?ws)"
    using assms by (simp add: process_lib_file_def process_lib_file_ops_def)
  also have "\<dots> = (f(output_path \<mapsto> []))(output_path \<mapsto> [] @ concat ?ws)"
    using t by (rule run_ops_writes)
  finally show ?thesis by simp
qed







section \<open>Claims on fix\_asap7\_macros.py\<close>




lemma scan_open_block:
  assumes "in_pin_block (scan_lines scan_init 0 ls)"
  shows "\<exists>l d. block_start_info (scan_lines scan_init 0 ls) = Some (l, d) \<and> open_span ls l d
     \<and> list_all (\<lambda>(a, b). b < l) (find_output_pin_line_ranges ls)"
  using scan_inv_lines [of ls] assms
  by (auto simp: scan_inv_def find_output_pin_line_ranges_def split: option.splits)

lemma not_in_range_behind:
  "list_all (\<lambda>(a, b). b < l) rs \<Longrightarrow> l \<le> n \<Longrightarrow> \<not> in_range rs n"
  by (induction rs) auto

text \<open>
  Claim C6, as the code has it. None of the scripts checks the balance of the braces
  or reports a structural failure; each writes its output whatever the braces are.
  \<open>find_output_pin_line_ranges\<close> returns only spans of closed blocks: a span starts at
  a header, the depth stays above the depth before the header up to the last line of
  the span and is at or below it there. A pin block that is still open when the input
  ends gives no span, and its lines are copied unchanged. \<open>clean_lib_file\<close> replaces
  the file also when the loop ends inside an open timing block.
\<close>

theorem unbalanced_braces_not_detected:
  "list_all (\<lambda>(a, b). closed_span ls a b) (find_output_pin_line_ranges ls)
   \<and> ascending 0 (find_output_pin_line_ranges ls)
   \<and> (in_pin_block (scan_lines scan_init 0 ls) \<longrightarrow>
        (\<exists>l d. block_start_info (scan_lines scan_init 0 ls) = Some (l, d) \<and> open_span ls l d
           \<and> list_all (\<lambda>(a, b). b < l) (find_output_pin_line_ranges ls)
           \<and> (\<forall>i<length ls. l \<le> i + 1 \<longrightarrow> process_lines ls ! i = ls ! i)))
   \<and> (f path = Some content \<longrightarrow>
        process_lib_file f path out out = Some (concat (process_lines (readlines content)))
        \<and> clean_lib_file f path path = Some (concat (clean_lines (readlines content))))"
proof -
  note p1 = ranges_closed [of ls]
  note p2 = ranges_ascending [of ls]
  have p3: "in_pin_block (scan_lines scan_init 0 ls) \<longrightarrow>
        (\<exists>l d. block_start_info (scan_lines scan_init 0 ls) = Some (l, d) \<and> open_span ls l d
           \<and> list_all (\<lambda>(a, b). b < l) (find_output_pin_line_ranges ls)
           \<and> (\<forall>i<length ls. l \<le> i + 1 \<longrightarrow> process_lines ls ! i = ls ! i))"
  proof
    assume "in_pin_block (scan_lines scan_init 0 ls)"
    from scan_open_block [OF this] obtain l d
      where i: "block_start_info (scan_lines scan_init 0 ls) = Some (l, d)"
        and o: "open_span ls l d"
        and b: "list_all (\<lambda>(a, b). b < l) (find_output_pin_line_ranges ls)"
      by blast
    have "\<forall>i<length ls. l \<le> i + 1 \<longrightarrow> process_lines ls ! i = ls ! i"
      using not_in_range_behind [OF b]
      by (simp add: process_lines_positional rewritten_line_def)
    with i o b show "\<exists>l d. block_start_info (scan_lines scan_init 0 ls) = Some (l, d) \<and> open_span ls l d
           \<and> list_all (\<lambda>(a, b). b < l) (find_output_pin_line_ranges ls)
           \<and> (\<forall>i<length ls. l \<le> i + 1 \<longrightarrow> process_lines ls ! i = ls ! i)"
      by blast
  qed
  have d: "path \<noteq> temp_filename path"
    using temp_filename_differs [of path] by simp
  have p4: "f path = Some content \<longrightarrow>
        process_lib_file f path out out = Some (concat (process_lines (readlines content)))
        \<and> clean_lib_file f path path = Some (concat (clean_lines (readlines content)))"
    using d by (auto simp: process_lib_file_result clean_lib_file_result)
  from p1 p2 p3 p4 show ?thesis by (intro conjI)
qed

theorem unbalanced_braces_not_detected_witness:
  "in_pin_block (scan_lines scan_init 0 (take 3 stray_brace_example))
   \<and> one_file ''a.lib'' open_block_example ''a.lib'' = Some open_block_example
   \<and> find_output_pin_line_ranges (take 3 stray_brace_example) = []
   \<and> process_lines (take 3 stray_brace_example) ! 2 = take 3 stray_brace_example ! 2
   \<and> find_output_pin_line_ranges stray_brace_example = [(1, 4)]
   \<and> closed_span stray_brace_example 1 4
   \<and> clean_lib_file (one_file ''a.lib'' open_block_example) ''a.lib'' ''a.lib''
       = Some (concat (clean_lines (readlines open_block_example)))"
proof -
  have a: "in_pin_block (scan_lines scan_init 0 (take 3 stray_brace_example))"
    by code_simp
  have b: "one_file ''a.lib'' open_block_example ''a.lib'' = Some open_block_example"
    by (simp add: one_file_def)
  have r0: "find_output_pin_line_ranges (take 3 stray_brace_example) = []"
    by code_simp
  have r1: "find_output_pin_line_ranges stray_brace_example = [(1, 4)]"
    by code_simp
  have s: "block_start_info (scan_lines scan_init 0 (take 3 stray_brace_example)) = Some (1, 0)"
    by code_simp
  have len: "(2::nat) < length (take 3 stray_brace_example)"
    by (simp add: stray_brace_example_def)
  note t = unbalanced_braces_not_detected [of "take 3 stray_brace_example" "one_file ''a.lib'' open_block_example"
      "''a.lib''" open_block_example "''a.lib''"]
  from t a s len have w: "process_lines (take 3 stray_brace_example) ! 2 = take 3 stray_brace_example ! 2"
    by auto
  from t b have c: "clean_lib_file (one_file ''a.lib'' open_block_example) ''a.lib'' ''a.lib''
       = Some (concat (clean_lines (readlines open_block_example)))"
    by blast
  from unbalanced_braces_not_detected [of stray_brace_example "one_file ''a.lib'' open_block_example"
      "''a.lib''" open_block_example "''a.lib''"]
  have "list_all (\<lambda>(a, b). closed_span stray_brace_example a b) (find_output_pin_line_ranges stray_brace_example)"
    by blast
  then have cs: "closed_span stray_brace_example 1 4"
    unfolding r1 by simp
  from a b r0 w r1 cs c show ?thesis by (intro conjI)
qed

text \<open>
  Two files with unbalanced braces. The first has two braces that are never closed:
  \<open>clean_lib_file\<close> replaces it by its first line. The second has a closing brace too
  many: \<open>process_lib_file\<close> rescales its values line and writes the file.
\<close>

theorem unbalanced_files_are_rewritten:
  "depth (readlines open_block_example) = 2
   \<and> clean_lib_file (one_file ''a.lib'' open_block_example) ''a.lib'' ''a.lib''
        = Some (''cell (c) {'' @ [CHR 0x0A])
   \<and> depth stray_brace_example = - 1
   \<and> process_lines stray_brace_example
        = stray_brace_example [2 := ''  values ( '' @ quoted ''0.001'' @ '' );'']"
proof -
  have a: "depth (readlines open_block_example) = 2" by code_simp
  have b: "one_file ''a.lib'' open_block_example ''a.lib'' = Some open_block_example"
    by (simp add: one_file_def)
  have "concat (clean_lines (readlines open_block_example)) = ''cell (c) {'' @ [CHR 0x0A]"
    by code_simp
  then have c: "clean_lib_file (one_file ''a.lib'' open_block_example) ''a.lib'' ''a.lib''
        = Some (''cell (c) {'' @ [CHR 0x0A])"
    using temp_filename_differs [of "''a.lib''"]
    by (simp add: clean_lib_file_result [of "one_file ''a.lib'' open_block_example" "''a.lib''" open_block_example, OF b])
  have d: "depth stray_brace_example = - 1" by code_simp
  have e: "process_lines stray_brace_example
        = stray_brace_example [2 := ''  values ( '' @ quoted ''0.001'' @ '' );'']"
    by code_simp
  from a c d e show ?thesis by (intro conjI)
qed

section \<open>The exponent sign of a numeric token\<close>

text \<open>
  Claim C10. The pattern of \<open>scale_numbers_in_line\<close> takes an exponent sign only
  when it is \<open>-\<close>. In the line \<open>1e+5\<close> the token is not matched as a whole: the
  mantissa \<open>1\<close> stays (the word character \<open>e\<close> follows it), the characters \<open>e\<close> and
  \<open>+\<close> are copied, and the exponent digits \<open>5\<close> alone are matched and divided by
  1000, so the line becomes \<open>1e+0.005\<close>. With a negative exponent sign the whole
  token \<open>1e-5\<close> is matched and becomes \<open>1e-08\<close>.
\<close>

theorem scale_positive_exponent_sign:
  "sub_pieces number_rx [] ''1e+5'' = [Inl (CHR ''1''), Inl (CHR ''e''), Inl (CHR ''+''), Inr ''5'']
   \<and> replacer ''5'' = ''0.005''
   \<and> scale_numbers_in_line ''1e+5'' = ''1e+0.005''
   \<and> sub_pieces number_rx [] ''1e-5'' = [Inr ''1e-5'']
   \<and> scale_numbers_in_line ''1e-5'' = ''1e-08''"
proof -
  have p1: "sub_pieces number_rx [] ''1e+5'' = [Inl (CHR ''1''), Inl (CHR ''e''), Inl (CHR ''+''), Inr ''5'']"
    by code_simp
  have p2: "replacer ''5'' = ''0.005''"
    by code_simp
  have p3: "sub_pieces number_rx [] ''1e-5'' = [Inr ''1e-5'']"
    by code_simp
  have p4: "replacer ''1e-5'' = ''1e-08''"
    by code_simp
  have p5: "scale_numbers_in_line ''1e+5'' = ''1e+0.005''"
    unfolding scale_numbers_in_line_def p1 by (simp add: join_pieces_def p2)
  have p6: "scale_numbers_in_line ''1e-5'' = ''1e-08''"
    unfolding scale_numbers_in_line_def p3 by (simp add: join_pieces_def p4)
  from p1 p2 p3 p5 p6 show ?thesis
    by blast
qed
text \<open>
  Claim C3, as the code has it. \<open>scale_numbers_in_line\<close> cuts the line into copied
  characters and numeric tokens and rewrites the tokens only. Every token is a match
  of the pattern: an optional \<open>-\<close>, digits, an optional fraction and an optional
  exponent, with no word character immediately before it and none immediately behind
  it. A digit sequence next to a word character is therefore altered only as the
  mantissa or the exponent of a token whose exponent marker is that word character. A
  line in which every digit stands immediately behind a word character, as in
  \<open>delay_template_7x7_x1\<close>, is returned as it is.
\<close>

theorem scale_numbers_in_line_tokens:
  "pieces_text (sub_pieces number_rx [] line) = line
   \<and> scale_numbers_in_line line = join_pieces replacer (sub_pieces number_rx [] line)
   \<and> (\<forall>ps1 tok ps2. sub_pieces number_rx [] line = ps1 @ Inr tok # ps2 \<longrightarrow>
        line = pieces_text ps1 @ tok @ pieces_text ps2
        \<and> scale_numbers_in_line line = join_pieces replacer ps1 @ replacer tok @ join_pieces replacer ps2
        \<and> tok \<noteq> []
        \<and> (pieces_text ps1 = [] \<or> \<not> is_word (last (pieces_text ps1)))
        \<and> (pieces_text ps2 = [] \<or> \<not> is_word (hd (pieces_text ps2)))
        \<and> rx_text number_rx (rev (pieces_text ps1)) tok (pieces_text ps2))
   \<and> (digits_embedded line \<longrightarrow> scale_numbers_in_line line = line)"
proof -
  have p1: "pieces_text (sub_pieces number_rx [] line) = line"
    by (rule pieces_text_sub_pieces)
  have p2: "scale_numbers_in_line line = join_pieces replacer (sub_pieces number_rx [] line)"
    by (simp add: scale_numbers_in_line_def)
  have p3: "\<forall>ps1 tok ps2. sub_pieces number_rx [] line = ps1 @ Inr tok # ps2 \<longrightarrow>
        line = pieces_text ps1 @ tok @ pieces_text ps2
        \<and> scale_numbers_in_line line = join_pieces replacer ps1 @ replacer tok @ join_pieces replacer ps2
        \<and> tok \<noteq> []
        \<and> (pieces_text ps1 = [] \<or> \<not> is_word (last (pieces_text ps1)))
        \<and> (pieces_text ps2 = [] \<or> \<not> is_word (hd (pieces_text ps2)))
        \<and> rx_text number_rx (rev (pieces_text ps1)) tok (pieces_text ps2)"
  proof (intro allI impI)
    fix ps1 tok ps2
    assume eq: "sub_pieces number_rx [] line = ps1 @ Inr tok # ps2"
    from sub_pieces_token [OF eq] have a: "line = pieces_text ps1 @ tok @ pieces_text ps2"
      and m: "rx_text number_rx (rev (pieces_text ps1)) tok (pieces_text ps2)"
      by simp_all
    from number_rx_delimited [OF m] have ne: "tok \<noteq> []"
      and nb: "rev (pieces_text ps1) = [] \<or> \<not> is_word (hd (rev (pieces_text ps1)))"
      and na: "pieces_text ps2 = [] \<or> \<not> is_word (hd (pieces_text ps2))"
      by simp_all
    from nb have nb': "pieces_text ps1 = [] \<or> \<not> is_word (last (pieces_text ps1))"
      by (auto simp: hd_rev)
    have s: "scale_numbers_in_line line = join_pieces replacer ps1 @ replacer tok @ join_pieces replacer ps2"
      unfolding p2 eq by simp
    from a s ne nb' na m
    show "line = pieces_text ps1 @ tok @ pieces_text ps2
        \<and> scale_numbers_in_line line = join_pieces replacer ps1 @ replacer tok @ join_pieces replacer ps2
        \<and> tok \<noteq> []
        \<and> (pieces_text ps1 = [] \<or> \<not> is_word (last (pieces_text ps1)))
        \<and> (pieces_text ps2 = [] \<or> \<not> is_word (hd (pieces_text ps2)))
        \<and> rx_text number_rx (rev (pieces_text ps1)) tok (pieces_text ps2)"
      by (intro conjI)
  qed
  have p4: "digits_embedded line \<longrightarrow> scale_numbers_in_line line = line"
    by (simp add: scale_embedded)
  from p1 p2 p3 p4 show ?thesis by (intro conjI)
qed

theorem scale_numbers_in_line_tokens_witness:
  "sub_pieces number_rx [] ''a 7x7 12 b''
     = [Inl CHR ''a'', Inl CHR '' '', Inl CHR ''7'', Inl CHR ''x'', Inl CHR ''7'', Inl CHR '' '']
       @ Inr ''12'' # [Inl CHR '' '', Inl CHR ''b'']
   \<and> scale_numbers_in_line ''a 7x7 12 b'' = ''a 7x7 0.012 b''
   \<and> \<not> is_word (last ''a 7x7 '') \<and> \<not> is_word (hd '' b'')
   \<and> digits_embedded ''index (delay_template_7x7_x1) ;''
   \<and> scale_numbers_in_line ''index (delay_template_7x7_x1) ;'' = ''index (delay_template_7x7_x1) ;''"
proof -
  let ?ps1 = "[Inl CHR ''a'', Inl CHR '' '', Inl CHR ''7'', Inl CHR ''x'', Inl CHR ''7'', Inl CHR '' '']"
  let ?ps2 = "[Inl CHR '' '', Inl CHR ''b'']"
  have a: "sub_pieces number_rx [] ''a 7x7 12 b'' = ?ps1 @ Inr ''12'' # ?ps2"
    by code_simp
  have r: "replacer ''12'' = ''0.012''"
    by code_simp
  have t1: "pieces_text ?ps1 = ''a 7x7 ''" and t2: "pieces_text ?ps2 = '' b''"
    by (simp_all add: pieces_text_def join_pieces_def)
  have j1: "join_pieces replacer ?ps1 = ''a 7x7 ''" and j2: "join_pieces replacer ?ps2 = '' b''"
    by (simp_all add: join_pieces_def)
  note t = scale_numbers_in_line_tokens [of "''a 7x7 12 b''"]
  from t a have c: "scale_numbers_in_line ''a 7x7 12 b''
        = join_pieces replacer ?ps1 @ replacer ''12'' @ join_pieces replacer ?ps2
      \<and> (pieces_text ?ps1 = [] \<or> \<not> is_word (last (pieces_text ?ps1)))
      \<and> (pieces_text ?ps2 = [] \<or> \<not> is_word (hd (pieces_text ?ps2)))"
    by blast
  from c have s: "scale_numbers_in_line ''a 7x7 12 b'' = ''a 7x7 0.012 b''"
    unfolding j1 j2 r by simp
  from c have w: "\<not> is_word (last ''a 7x7 '')" "\<not> is_word (hd '' b'')"
    unfolding t1 t2 by simp_all
  have e: "digits_embedded ''index (delay_template_7x7_x1) ;''"
    by code_simp
  from scale_numbers_in_line_tokens [of "''index (delay_template_7x7_x1) ;''"] e
  have u: "scale_numbers_in_line ''index (delay_template_7x7_x1) ;'' = ''index (delay_template_7x7_x1) ;''"
    by blast
  from a s w e u show ?thesis by (intro conjI)
qed

text \<open>
  The line \<open>1e5\<close>: the digit \<open>1\<close> stands immediately before the word character \<open>e\<close>
  and the digit \<open>5\<close> immediately behind it, and the line is rewritten to \<open>100\<close>.
\<close>

theorem scale_numbers_in_line_exponent_digits:
  "is_digit (CHR ''1'') \<and> is_word (CHR ''e'') \<and> is_digit (CHR ''5'')
   \<and> scale_numbers_in_line ''1e5'' = ''100''"
proof -
  have a: "is_digit (CHR ''1'')" "is_word (CHR ''e'')" "is_digit (CHR ''5'')"
    by code_simp+
  have b: "scale_numbers_in_line ''1e5'' = ''100''"
    by code_simp
  from a b show ?thesis by (intro conjI)
qed

section \<open>The matches of \<open>LIB_AREA_RE\<close>\<close>

lemma area_text_Nil [simp]: "area_text f [] = []"
  by (simp add: area_text_def)

lemma area_text_Inl [simp]: "area_text f (Inl c # ps) = c # area_text f ps"
  by (simp add: area_text_def)

lemma area_text_Inr [simp]: "area_text f (Inr (g1, num, g2) # ps) = g1 @ f num @ g2 @ area_text f ps"
  by (simp add: area_text_def)

lemma area_text_append [simp]: "area_text f (ps @ qs) = area_text f ps @ area_text f qs"
  by (simp add: area_text_def)














section \<open>Claims on update\_lib\_area.py\<close>





end
